theory Spec2Isabelle
  imports Complex_Main "HOL-Library.Word" "HOL-Library.AList"
begin

section \<open>Panics and loops\<close>

text \<open>
  The generator's core is Rust, kept in the repository as the file contents that the
  Python scripts write out: \<^verbatim>\<open>src/sdf/generator.rs\<close> and \<^verbatim>\<open>src/atlas/packer.rs\<close> in
  \<^verbatim>\<open>script_3.py\<close>, \<^verbatim>\<open>src/lib.rs\<close> in \<^verbatim>\<open>script_2.py\<close>. None of the functions modelled
  here makes an \<^verbatim>\<open>Err\<close> of its own: each one ends in \<^verbatim>\<open>Ok(...)\<close> or panics. A run is
  therefore a value of \<open>panic + 'a\<close>, \<open>Inr\<close> being the \<^verbatim>\<open>Ok\<close> result.
\<close>

datatype panic = DivideByZero | ArithmeticOverflow | IndexOutOfBounds

definition and_then :: "panic + 'a \<Rightarrow> ('a \<Rightarrow> panic + 'b) \<Rightarrow> panic + 'b" where
  "and_then m f = (case m of Inl e \<Rightarrow> Inl e | Inr v \<Rightarrow> f v)"

text \<open>A \<^verbatim>\<open>for\<close> loop over a finite range, threading the mutated variables as a state.\<close>

fun for_each :: "('a \<Rightarrow> 's \<Rightarrow> panic + 's) \<Rightarrow> 'a list \<Rightarrow> 's \<Rightarrow> panic + 's" where
  "for_each body [] s = Inr s"
| "for_each body (a # as) s =
     (case body a s of Inl e \<Rightarrow> Inl e | Inr s' \<Rightarrow> for_each body as s')"

section \<open>Integer arithmetic\<close>

text \<open>
  An integer operation whose result leaves its type does one of two things in Rust,
  depending on the build profile. With overflow checks (the dev profile of
  \<^verbatim>\<open>cargo run\<close> and \<^verbatim>\<open>cargo test\<close>) it panics with "attempt to ... with overflow";
  without them (\<^verbatim>\<open>cargo build --release\<close>) it carries on with the result wrapped
  around. The README uses both profiles, so every function that computes takes the
  profile's setting \<open>overflow_checks\<close> as its first argument. Division and remainder by
  zero panic in either profile.
\<close>

type_synonym u8 = "8 word"
type_synonym u32 = "32 word"

definition u32_add :: "bool \<Rightarrow> u32 \<Rightarrow> u32 \<Rightarrow> panic + u32" where
  "u32_add overflow_checks a b =
     (if overflow_checks \<and> 2 ^ 32 \<le> unat a + unat b then Inl ArithmeticOverflow
      else Inr (a + b))"

definition u32_sub :: "bool \<Rightarrow> u32 \<Rightarrow> u32 \<Rightarrow> panic + u32" where
  "u32_sub overflow_checks a b =
     (if overflow_checks \<and> unat a < unat b then Inl ArithmeticOverflow else Inr (a - b))"

definition u32_mul :: "bool \<Rightarrow> u32 \<Rightarrow> u32 \<Rightarrow> panic + u32" where
  "u32_mul overflow_checks a b =
     (if overflow_checks \<and> 2 ^ 32 \<le> unat a * unat b then Inl ArithmeticOverflow
      else Inr (a * b))"

definition u32_div :: "u32 \<Rightarrow> u32 \<Rightarrow> panic + u32" where
  "u32_div a b = (if b = 0 then Inl DivideByZero else Inr (a div b))"

definition u32_rem :: "u32 \<Rightarrow> u32 \<Rightarrow> panic + u32" where
  "u32_rem a b = (if b = 0 then Inl DivideByZero else Inr (a mod b))"

text \<open>
  A value of type \<^verbatim>\<open>i32\<close> is an \<open>int\<close> from \<open>- 2 ^ 31\<close> up to \<open>2 ^ 31 - 1\<close>.
  \<open>i32_checked\<close> is the outcome of an \<^verbatim>\<open>i32\<close> addition, multiplication or negation
  whose exact result is \<open>v\<close>. \<open>as_i32\<close> is the cast \<^verbatim>\<open>as i32\<close> of a \<^verbatim>\<open>u32\<close>, which
  keeps the 32 bits, and \<open>ceil_as_i32\<close> is \<^verbatim>\<open>.ceil() as i32\<close> of an \<^verbatim>\<open>f32\<close>, a cast that
  saturates at the ends of \<^verbatim>\<open>i32\<close>.
\<close>

definition i32_wrap :: "int \<Rightarrow> int" where
  "i32_wrap v = (v + 2 ^ 31) mod 2 ^ 32 - 2 ^ 31"

definition i32_checked :: "bool \<Rightarrow> int \<Rightarrow> panic + int" where
  "i32_checked overflow_checks v =
     (if - (2 ^ 31) \<le> v \<and> v < 2 ^ 31 then Inr v
      else if overflow_checks then Inl ArithmeticOverflow
      else Inr (i32_wrap v))"

definition as_i32 :: "nat \<Rightarrow> int" where
  "as_i32 n = i32_wrap (int n)"

definition ceil_as_i32 :: "real \<Rightarrow> int" where
  "ceil_as_i32 r = max (- (2 ^ 31)) (min (2 ^ 31 - 1) \<lceil>r\<rceil>)"

section \<open>Images\<close>

text \<open>
  An \<^verbatim>\<open>ImageBuffer\<close> of the image crate: its dimensions and its pixels. The dimensions
  and the coordinates are \<^verbatim>\<open>u32\<close> in the crate and \<open>nat\<close> here, below \<open>2 ^ 32\<close> for
  every buffer the crate can hold. \<^verbatim>\<open>get_pixel\<close> and \<^verbatim>\<open>put_pixel\<close> panic on a
  coordinate outside the buffer; \<^verbatim>\<open>new\<close> fills the buffer with zero pixels.
\<close>

type_synonym rgb = "u8 \<times> u8 \<times> u8"
type_synonym rgba = "u8 \<times> u8 \<times> u8 \<times> u8"

record 'p image =
  img_width :: nat
  img_height :: nat
  img_pixel :: "nat \<times> nat \<Rightarrow> 'p"

definition new_image :: "nat \<Rightarrow> nat \<Rightarrow> 'p \<Rightarrow> 'p image" where
  "new_image w h zero_pixel = \<lparr>img_width = w, img_height = h, img_pixel = (\<lambda>_. zero_pixel)\<rparr>"

definition get_pixel :: "'p image \<Rightarrow> nat \<Rightarrow> nat \<Rightarrow> panic + 'p" where
  "get_pixel img x y =
     (if x < img_width img \<and> y < img_height img then Inr (img_pixel img (x, y))
      else Inl IndexOutOfBounds)"

definition put_pixel :: "'p image \<Rightarrow> nat \<Rightarrow> nat \<Rightarrow> 'p \<Rightarrow> panic + 'p image" where
  "put_pixel img x y p =
     (if x < img_width img \<and> y < img_height img
      then Inr (img\<lparr>img_pixel := (img_pixel img)((x, y) := p)\<rparr>)
      else Inl IndexOutOfBounds)"

section \<open>The distance field engine (src/sdf/generator.rs)\<close>

text \<open>
  The integers of this module are modelled exactly, as above. Its \<^verbatim>\<open>f32\<close> distances
  are modelled by \<open>real\<close>: the square root and the minimum are taken without rounding.
  The one float that is not a number is kept apart: \<^verbatim>\<open>(v as f32).sqrt()\<close> of a negative
  \<open>v\<close> (which a wrapped sum of squares can be) is NaN, and \<^verbatim>\<open>min_distance.min(NaN)\<close>
  is \<open>min_distance\<close>.

  One iteration of the neighbourhood search: the body of the two nested loops of
  \<^verbatim>\<open>calculate_distance_to_edge\<close>, with \<open>min_distance\<close> as the state.
\<close>

definition neighbor_step ::
    "bool \<Rightarrow> u8 image \<Rightarrow> nat \<Rightarrow> nat \<Rightarrow> bool \<Rightarrow> int \<Rightarrow> int \<Rightarrow> real \<Rightarrow> panic + real" where
  "neighbor_step overflow_checks mask_img x y is_inside dy dx min_distance =
     and_then (i32_checked overflow_checks (as_i32 x + dx)) (\<lambda>nx.
     and_then (i32_checked overflow_checks (as_i32 y + dy)) (\<lambda>ny.
       if 0 \<le> nx \<and> nx < as_i32 (img_width mask_img) \<and>
          0 \<le> ny \<and> ny < as_i32 (img_height mask_img) then
         and_then (get_pixel mask_img (nat nx) (nat ny)) (\<lambda>neighbor_pixel.
           let neighbor_inside = (128 < neighbor_pixel) in
           if is_inside \<noteq> neighbor_inside then
             and_then (i32_checked overflow_checks (dx * dx)) (\<lambda>dx_squared.
             and_then (i32_checked overflow_checks (dy * dy)) (\<lambda>dy_squared.
             and_then (i32_checked overflow_checks (dx_squared + dy_squared)) (\<lambda>squared.
               Inr (if squared < 0 then min_distance
                    else min min_distance (sqrt (real_of_int squared))))))
           else Inr min_distance)
       else Inr min_distance))"

text \<open>
  The two loops run over \<^verbatim>\<open>-search_radius..=search_radius\<close>; the negation is an
  \<^verbatim>\<open>i32\<close> operation like the others.
\<close>

definition calculate_distance_to_edge ::
    "bool \<Rightarrow> u8 image \<Rightarrow> nat \<Rightarrow> nat \<Rightarrow> real \<Rightarrow> panic + real" where
  "calculate_distance_to_edge overflow_checks mask_img x y max_range =
     and_then (get_pixel mask_img x y) (\<lambda>current_pixel.
       let is_inside = (128 < current_pixel);
           search_radius = ceil_as_i32 max_range in
       and_then (i32_checked overflow_checks (- search_radius)) (\<lambda>lowest.
       and_then
         (for_each (\<lambda>dy. for_each (neighbor_step overflow_checks mask_img x y is_inside dy)
                                   [lowest..search_radius])
            [lowest..search_radius] max_range)
         (\<lambda>min_distance. Inr (if is_inside then - min_distance else min_distance))))"

text \<open>
  The encoding \<^verbatim>\<open>((distance / range + 1.0) * 0.5 * 255.0).clamp(0.0, 255.0) as u8\<close>,
  in real arithmetic; the cast of a value in \<open>[0, 255]\<close> drops the fraction.
\<close>

definition normalized :: "real \<Rightarrow> real \<Rightarrow> u8" where
  "normalized distance rng =
     of_int \<lfloor>max 0 (min 255 ((distance / rng + 1) * 0.5 * 255))\<rfloor>"

definition generate_sdf_from_mask :: "bool \<Rightarrow> u8 image \<Rightarrow> real \<Rightarrow> panic + u8 image" where
  "generate_sdf_from_mask overflow_checks mask_img rng =
     (let width = img_width mask_img; height = img_height mask_img;
          sdf = new_image width height 0 in
      for_each (\<lambda>y. for_each (\<lambda>x sdf.
            and_then (calculate_distance_to_edge overflow_checks mask_img x y rng) (\<lambda>distance.
              put_pixel sdf x y (normalized distance rng)))
          [0..<width])
        [0..<height] sdf)"

definition generate_msdf_from_mask :: "bool \<Rightarrow> u8 image \<Rightarrow> real \<Rightarrow> panic + rgb image" where
  "generate_msdf_from_mask overflow_checks mask_img rng =
     and_then (generate_sdf_from_mask overflow_checks mask_img rng) (\<lambda>sdf.
       let width = img_width sdf; height = img_height sdf;
           msdf = new_image width height (0, 0, 0) in
       for_each (\<lambda>y. for_each (\<lambda>x msdf.
             and_then (get_pixel sdf x y) (\<lambda>gray. put_pixel msdf x y (gray, gray, gray)))
           [0..<width])
         [0..<height] msdf)"

text \<open>
  Two notions for the statements: one channel of a three-channel image, as a
  single-channel image; and two images of the same dimensions that agree on every pixel
  inside them.
\<close>

definition channel :: "(rgb \<Rightarrow> u8) \<Rightarrow> rgb image \<Rightarrow> u8 image" where
  "channel sel img =
     \<lparr>img_width = img_width img, img_height = img_height img,
      img_pixel = (\<lambda>p. sel (img_pixel img p))\<rparr>"

definition same_in_bounds :: "'p image \<Rightarrow> 'p image \<Rightarrow> bool" where
  "same_in_bounds a b \<longleftrightarrow>
     img_width a = img_width b \<and> img_height a = img_height b \<and>
     (\<forall>x y. x < img_width b \<and> y < img_height b \<longrightarrow> img_pixel a (x, y) = img_pixel b (x, y))"

text \<open>
  A mask of 65537 by 1 pixels, all of them inside but the last one: the only boundary
  seen from the pixel \<open>(0, 0)\<close> is 65536 pixels away.
\<close>

definition wide_mask :: "u8 image" where
  "wide_mask = \<lparr>img_width = 65537, img_height = 1,
                 img_pixel = (\<lambda>p. if p = (65536, 0) then 0 else 255)\<rparr>"

section \<open>The atlas packer (src/atlas/packer.rs)\<close>

text \<open>
  The grid side \<^verbatim>\<open>(image_count as f32).sqrt().ceil() as u32\<close> goes through \<^verbatim>\<open>f32\<close>, and
  here the rounding decides an integer, so it is modelled. \<open>f32_round\<close> rounds a real
  in the normal range of \<^verbatim>\<open>f32\<close> to the nearest number with a significand of 24 bits,
  a tie to the one whose significand is even: the conversion of the count and the square
  root are each the exact result rounded once. \<^verbatim>\<open>ceil\<close> is exact, and the cast to
  \<^verbatim>\<open>u32\<close> saturates.
\<close>

definition round_ties_even :: "real \<Rightarrow> int" where
  "round_ties_even x =
     (let f = \<lfloor>x\<rfloor> in
      if x - of_int f < 1 / 2 then f
      else if 1 / 2 < x - of_int f then f + 1
      else if even f then f else f + 1)"

definition f32_round :: "real \<Rightarrow> real" where
  "f32_round x =
     (if x = 0 then 0
      else let e = \<lfloor>log 2 \<bar>x\<bar>\<rfloor>; ulp = 2 powr (of_int e - 23) in
           of_int (round_ties_even (x / ulp)) * ulp)"

definition grid_side :: "nat \<Rightarrow> nat" where
  "grid_side image_count =
     nat (min (2 ^ 32 - 1) \<lceil>f32_round (sqrt (f32_round (real image_count)))\<rceil>)"

text \<open>
  The grid side of the specification, \<open>\<lceil>sqrt n\<rceil>\<close> without rounding: the least \<open>g\<close>
  whose square reaches the count.
\<close>

function sqrt_ceil_from :: "nat \<Rightarrow> nat \<Rightarrow> nat" where
  "sqrt_ceil_from n g = (if n \<le> g * g then g else sqrt_ceil_from n (Suc g))"
  by pat_completeness auto
termination
proof (relation "measure (\<lambda>(n, g). n - g)")
  show "wf (measure (\<lambda>(n, g). n - g))" by simp
next
  fix n g :: nat
  assume "\<not> n \<le> g * g"
  then have "g < n" by (cases "g = 0") (auto intro: le_less_trans [OF le_square])
  then show "((n, Suc g), (n, g)) \<in> measure (\<lambda>(n, g). n - g)" by simp
qed

definition sqrt_ceil :: "nat \<Rightarrow> nat" where
  "sqrt_ceil n = sqrt_ceil_from n 0"

record AtlasPosition =
  pos_x :: u32
  pos_y :: u32
  pos_width :: u32
  pos_height :: u32

text \<open>
  The copy of one resized tile into the atlas. \<open>rgba_image\<close> gives the pixels of
  \<^verbatim>\<open>resized.to_rgba8()\<close>, an image of \<open>content_size\<close> pixels a side.
\<close>

definition copy_pixel ::
    "bool \<Rightarrow> u32 \<Rightarrow> u32 \<Rightarrow> u32 \<Rightarrow> (nat \<times> nat \<Rightarrow> rgba) \<Rightarrow> nat \<Rightarrow> nat \<Rightarrow> rgba image \<Rightarrow>
     panic + rgba image" where
  "copy_pixel overflow_checks atlas_size x y rgba_image py px atlas =
     and_then (u32_add overflow_checks x (of_nat px)) (\<lambda>ax.
       if ax < atlas_size then
         and_then (u32_add overflow_checks y (of_nat py)) (\<lambda>ay.
           if ay < atlas_size
           then put_pixel atlas (unat ax) (unat ay) (rgba_image (px, py))
           else Inr atlas)
       else Inr atlas)"

definition copy_tile ::
    "bool \<Rightarrow> u32 \<Rightarrow> u32 \<Rightarrow> u32 \<Rightarrow> u32 \<Rightarrow> (nat \<times> nat \<Rightarrow> rgba) \<Rightarrow> rgba image \<Rightarrow>
     panic + rgba image" where
  "copy_tile overflow_checks atlas_size x y content_size rgba_image atlas =
     for_each (\<lambda>py. for_each (copy_pixel overflow_checks atlas_size x y rgba_image py)
                       [0..<unat content_size])
       [0..<unat content_size] atlas"

text \<open>
  The body of the loop over the enumerated tiles. \<open>resize_exact\<close> stands for the image
  crate's \<^verbatim>\<open>resize_exact\<close> followed by \<^verbatim>\<open>to_rgba8\<close>: the pixels of the tile
  resampled to the given width and height. The state is the atlas and the positions,
  a \<^verbatim>\<open>HashMap\<close> kept as an association list with one entry per key. \<^verbatim>\<open>i as u32\<close>
  keeps the low 32 bits of the index.
\<close>

definition place_tile ::
    "bool \<Rightarrow> ('img \<Rightarrow> u32 \<Rightarrow> u32 \<Rightarrow> nat \<times> nat \<Rightarrow> rgba) \<Rightarrow> u32 \<Rightarrow> u32 \<Rightarrow> u32 \<Rightarrow> u32 \<Rightarrow> u32 \<Rightarrow>
     nat \<times> string \<times> 'img \<Rightarrow> rgba image \<times> (string \<times> AtlasPosition) list \<Rightarrow>
     panic + rgba image \<times> (string \<times> AtlasPosition) list" where
  "place_tile overflow_checks resize_exact atlas_size padding grid_size cell_size content_size
       entry st =
     (case entry of (i, tile_id, tile) \<Rightarrow> case st of (atlas, positions) \<Rightarrow>
       and_then (u32_rem (of_nat i) grid_size) (\<lambda>grid_x.
       and_then (u32_div (of_nat i) grid_size) (\<lambda>grid_y.
       and_then (and_then (u32_mul overflow_checks grid_x cell_size)
                   (\<lambda>t. u32_add overflow_checks t padding)) (\<lambda>x.
       and_then (and_then (u32_mul overflow_checks grid_y cell_size)
                   (\<lambda>t. u32_add overflow_checks t padding)) (\<lambda>y.
       and_then (copy_tile overflow_checks atlas_size x y content_size
                   (resize_exact tile content_size content_size) atlas) (\<lambda>atlas'.
         Inr (atlas',
              AList.update tile_id
                \<lparr>pos_x = x, pos_y = y, pos_width = content_size, pos_height = content_size\<rparr>
                positions)))))))"

definition pack_atlas ::
    "bool \<Rightarrow> ('img \<Rightarrow> u32 \<Rightarrow> u32 \<Rightarrow> nat \<times> nat \<Rightarrow> rgba) \<Rightarrow> (string \<times> 'img) list \<Rightarrow> u32 \<Rightarrow> u32 \<Rightarrow>
     panic + rgba image \<times> (string \<times> AtlasPosition) list" where
  "pack_atlas overflow_checks resize_exact images atlas_size padding =
     (let positions = [];
          atlas = new_image (unat atlas_size) (unat atlas_size) (0, 0, 0, 0);
          image_count = length images;
          grid_size = of_nat (grid_side image_count) in
      and_then (u32_div atlas_size grid_size) (\<lambda>cell_size.
      and_then (and_then (u32_mul overflow_checks padding 2)
                  (\<lambda>t. u32_sub overflow_checks cell_size t)) (\<lambda>content_size.
        for_each (place_tile overflow_checks resize_exact atlas_size padding grid_size cell_size
                    content_size)
          (List.enumerate 0 images) (atlas, positions))))"

text \<open>
  The placement the loop computes for tile \<open>i\<close>, in wrapping arithmetic, and the map the
  loop builds from these: the closed forms that the proofs below compare the loop with.
\<close>

definition grid_cell_rect :: "u32 \<Rightarrow> u32 \<Rightarrow> u32 \<Rightarrow> nat \<Rightarrow> AtlasPosition" where
  "grid_cell_rect grid_size cell_size padding i =
     \<lparr>pos_x = (of_nat i mod grid_size) * cell_size + padding,
      pos_y = (of_nat i div grid_size) * cell_size + padding,
      pos_width = cell_size - padding * 2,
      pos_height = cell_size - padding * 2\<rparr>"

definition grid_placements ::
    "(string \<times> 'img) list \<Rightarrow> u32 \<Rightarrow> u32 \<Rightarrow> (string \<times> AtlasPosition) list" where
  "grid_placements images atlas_size padding =
     (let grid_size = of_nat (grid_side (length images));
          cell_size = atlas_size div grid_size in
      fold (\<lambda>(i, tile_id, tile). AList.update tile_id (grid_cell_rect grid_size cell_size padding i))
        (List.enumerate 0 images) [])"

text \<open>
  Two placements overlap when their rectangles share a pixel column range and a pixel row
  range.
\<close>

definition rects_overlap :: "AtlasPosition \<Rightarrow> AtlasPosition \<Rightarrow> bool" where
  "rects_overlap a b \<longleftrightarrow>
     unat (pos_x a) < unat (pos_x b) + unat (pos_width b) \<and>
     unat (pos_x b) < unat (pos_x a) + unat (pos_width a) \<and>
     unat (pos_y a) < unat (pos_y b) + unat (pos_height b) \<and>
     unat (pos_y b) < unat (pos_y a) + unat (pos_height a)"

text \<open>
  Two runs of the packer are compared through their states: atlases of the same size,
  and the same positions.
\<close>

definition same_size :: "'p image \<Rightarrow> 'p image \<Rightarrow> bool" where
  "same_size a b \<longleftrightarrow> img_width a = img_width b \<and> img_height a = img_height b"

definition same_placements ::
    "rgba image \<times> (string \<times> AtlasPosition) list \<Rightarrow> rgba image \<times> (string \<times> AtlasPosition) list \<Rightarrow> bool" where
  "same_placements s t \<longleftrightarrow> same_size (fst s) (fst t) \<and> snd s = snd t"

section \<open>The pipeline and its registry (src/lib.rs)\<close>

text \<open>
  The structs of \<^verbatim>\<open>lib.rs\<close>. A \<^verbatim>\<open>HashMap\<close> is an association list with one entry per
  key, read in the order of its entries; \<^verbatim>\<open>insert\<close> and the update through
  \<^verbatim>\<open>get_mut\<close> are \<open>AList.update\<close>. A \<^verbatim>\<open>String\<close> is the list of its characters, one
  \<open>char\<close> for each Rust \<^verbatim>\<open>char\<close>, so that \<^verbatim>\<open>chars().next()\<close> is the head of the list.
\<close>

record SdfConfig =
  cfg_font_path :: "string option"
  cfg_sdf_size :: u32
  cfg_atlas_size :: u32
  cfg_sdf_range :: real
  cfg_padding :: u32
  cfg_include_shapes :: bool
  cfg_multi_channel :: bool
  cfg_characters :: string

record 'img CharacterSdf =
  csdf_image :: 'img
  csdf_width :: u32
  csdf_height :: u32
  csdf_advance :: real
  csdf_bearing_x :: real
  csdf_bearing_y :: real

record CharacterInfo =
  ci_x :: u32
  ci_y :: u32
  ci_width :: u32
  ci_height :: u32
  ci_advance :: real
  ci_bearing_x :: real
  ci_bearing_y :: real

record ShapeInfo =
  si_x :: u32
  si_y :: u32
  si_width :: u32
  si_height :: u32

record RegistryMetadata =
  md_atlas_width :: u32
  md_atlas_height :: u32
  md_sdf_range :: real
  md_resolution :: u32
  md_padding :: u32
  md_format :: string
  md_created :: string

record SdfRegistry =
  reg_metadata :: RegistryMetadata
  reg_characters :: "(char \<times> CharacterInfo) list"
  reg_shapes :: "(string \<times> ShapeInfo) list"

record SdfResult =
  res_sprite_sheet :: "rgba image"
  res_registry :: SdfRegistry

text \<open>
  \<^verbatim>\<open>SdfGenerator::generate\<close>, in its four steps. The first collects the registry entries
  and the tiles: one per character of \<open>character_sdfs\<close> when a font is configured, one per
  shape of \<open>shape_sdfs\<close> when shapes are requested. The two lists stand for what
  \<^verbatim>\<open>generate_character_sdfs\<close> and \<^verbatim>\<open>generate_basic_shapes\<close> returned (font parsing and
  the shapes' pixels are outside the model; a run in which one of them fails ends there
  with its error and packs nothing).
\<close>

definition add_character ::
    "char \<times> 'img CharacterSdf \<Rightarrow> (char \<times> CharacterInfo) list \<times> (string \<times> 'img) list \<Rightarrow>
     (char \<times> CharacterInfo) list \<times> (string \<times> 'img) list" where
  "add_character entry st =
     (case entry of (ch, sdf_data) \<Rightarrow> case st of (characters, sdf_images) \<Rightarrow>
        (AList.update ch
           \<lparr>ci_x = 0, ci_y = 0,
            ci_width = csdf_width sdf_data, ci_height = csdf_height sdf_data,
            ci_advance = csdf_advance sdf_data,
            ci_bearing_x = csdf_bearing_x sdf_data, ci_bearing_y = csdf_bearing_y sdf_data\<rparr>
           characters,
         sdf_images @ [(''char_'' @ [ch], csdf_image sdf_data)]))"

definition add_shape ::
    "u32 \<Rightarrow> string \<times> 'img \<Rightarrow> (string \<times> ShapeInfo) list \<times> (string \<times> 'img) list \<Rightarrow>
     (string \<times> ShapeInfo) list \<times> (string \<times> 'img) list" where
  "add_shape sdf_size entry st =
     (case entry of (name, img) \<Rightarrow> case st of (shapes, sdf_images) \<Rightarrow>
        (AList.update name
           \<lparr>si_x = 0, si_y = 0, si_width = sdf_size, si_height = sdf_size\<rparr> shapes,
         sdf_images @ [(''shape_'' @ name, img)]))"

definition collect_tiles ::
    "SdfConfig \<Rightarrow> (char \<times> 'img CharacterSdf) list \<Rightarrow> (string \<times> 'img) list \<Rightarrow>
     (char \<times> CharacterInfo) list \<times> (string \<times> ShapeInfo) list \<times> (string \<times> 'img) list" where
  "collect_tiles config character_sdfs shape_sdfs =
     (case (if cfg_font_path config \<noteq> None then fold add_character character_sdfs ([], [])
            else ([], [])) of
        (characters, sdf_images) \<Rightarrow>
          case (if cfg_include_shapes config
                then fold (add_shape (cfg_sdf_size config)) shape_sdfs ([], sdf_images)
                else ([], sdf_images)) of
            (shapes, sdf_images) \<Rightarrow> (characters, shapes, sdf_images))"

text \<open>
  The third step, after the packer: the loop over the positions that writes each
  placement's origin into the registry entry its id names.
\<close>

definition strip_prefix :: "string \<Rightarrow> string \<Rightarrow> string option" where
  "strip_prefix pre s =
     (if take (length pre) s = pre then Some (drop (length pre) s) else None)"

definition update_position ::
    "string \<times> AtlasPosition \<Rightarrow> (char \<times> CharacterInfo) list \<times> (string \<times> ShapeInfo) list \<Rightarrow>
     (char \<times> CharacterInfo) list \<times> (string \<times> ShapeInfo) list" where
  "update_position entry st =
     (case entry of (tile_id, pos) \<Rightarrow> case st of (characters, shapes) \<Rightarrow>
        (case strip_prefix ''char_'' tile_id of
           Some stripped \<Rightarrow>
             (case stripped of
                ch # _ \<Rightarrow>
                  (case map_of characters ch of
                     Some char_info \<Rightarrow>
                       (AList.update ch (char_info\<lparr>ci_x := pos_x pos, ci_y := pos_y pos\<rparr>)
                          characters, shapes)
                   | None \<Rightarrow> (characters, shapes))
              | [] \<Rightarrow> (characters, shapes))
         | None \<Rightarrow>
             (case strip_prefix ''shape_'' tile_id of
                Some shape_name \<Rightarrow>
                  (case map_of shapes shape_name of
                     Some shape_info \<Rightarrow>
                       (characters,
                        AList.update shape_name
                          (shape_info\<lparr>si_x := pos_x pos, si_y := pos_y pos\<rparr>) shapes)
                   | None \<Rightarrow> (characters, shapes))
              | None \<Rightarrow> (characters, shapes))))"

text \<open>
  \<open>now\<close> is the timestamp that \<^verbatim>\<open>chrono::Utc::now().to_rfc3339()\<close> returns.
\<close>

definition generate ::
    "bool \<Rightarrow> ('img \<Rightarrow> u32 \<Rightarrow> u32 \<Rightarrow> nat \<times> nat \<Rightarrow> rgba) \<Rightarrow> SdfConfig \<Rightarrow>
     (char \<times> 'img CharacterSdf) list \<Rightarrow> (string \<times> 'img) list \<Rightarrow> string \<Rightarrow> panic + SdfResult" where
  "generate overflow_checks resize_exact config character_sdfs shape_sdfs now =
     (case collect_tiles config character_sdfs shape_sdfs of
        (characters, shapes, sdf_images) \<Rightarrow>
          and_then (pack_atlas overflow_checks resize_exact sdf_images (cfg_atlas_size config)
                      (cfg_padding config))
            (\<lambda>packed. case packed of (atlas_image, positions) \<Rightarrow>
               case fold update_position positions (characters, shapes) of
                 (characters, shapes) \<Rightarrow>
                   Inr \<lparr>res_sprite_sheet = atlas_image,
                        res_registry =
                          \<lparr>reg_metadata =
                             \<lparr>md_atlas_width = cfg_atlas_size config,
                              md_atlas_height = cfg_atlas_size config,
                              md_sdf_range = cfg_sdf_range config,
                              md_resolution = cfg_sdf_size config,
                              md_padding = cfg_padding config,
                              md_format = (if cfg_multi_channel config then ''multi_channel''
                                           else ''single_channel''),
                              md_created = now\<rparr>,
                           reg_characters = characters,
                           reg_shapes = shapes\<rparr>\<rparr>))"




text \<open>
  The configuration of the command line's defaults with \<^verbatim>\<open>--shapes\<close> and no font.
\<close>

definition shapes_only_config :: SdfConfig where
  "shapes_only_config = \<lparr>cfg_font_path = None, cfg_sdf_size = 64, cfg_atlas_size = 1024,
     cfg_sdf_range = 4, cfg_padding = 2, cfg_include_shapes = True, cfg_multi_channel = False,
     cfg_characters = ''abcdefghijklmnopqrstuvwxyzABCDEFGHIJKLMNOPQRSTUVWXYZ0123456789''\<rparr>"

section \<open>Loops\<close>

lemma and_then_Inr [simp]: "and_then (Inr v) f = f v"
  by (simp add: and_then_def)

lemma and_then_Inl [simp]: "and_then (Inl e) f = Inl e"
  by (simp add: and_then_def)

text \<open>A loop whose body keeps an invariant and never panics under it runs to its end.\<close>

lemma for_each_invariant:
  assumes "P s"
    and "\<And>a t. a \<in> set xs \<Longrightarrow> P t \<Longrightarrow> \<exists>t'. body a t = Inr t' \<and> P t'"
  shows "\<exists>s'. for_each body xs s = Inr s' \<and> P s'"
  using assms
proof (induction xs arbitrary: s)
  case Nil
  then show ?case by simp
next
  case (Cons a xs)
  from Cons.prems obtain t where t: "body a s = Inr t" "P t"
    by (meson list.set_intros(1))
  have "\<exists>s'. for_each body xs t = Inr s' \<and> P s'"
    by (rule Cons.IH [OF t(2)]) (simp add: Cons.prems(2))
  with t show ?case by simp
qed

lemma for_each_cong:
  assumes "\<And>a t. a \<in> set xs \<Longrightarrow> f a t = g a t"
  shows "for_each f xs s = for_each g xs s"
  using assms by (induction xs arbitrary: s) (auto split: sum.splits)

text \<open>What the body keeps whenever it returns, a loop that returns has kept.\<close>

lemma for_each_preserves:
  assumes "for_each body xs s = Inr s'" "P s"
    and "\<And>a t t'. a \<in> set xs \<Longrightarrow> P t \<Longrightarrow> body a t = Inr t' \<Longrightarrow> P t'"
  shows "P s'"
  using assms
proof (induction xs arbitrary: s)
  case Nil
  then show ?case by simp
next
  case (Cons a xs)
  from Cons.prems(1) obtain t where t: "body a s = Inr t" "for_each body xs t = Inr s'"
    by (auto split: sum.splits)
  have "P t" using Cons.prems(3) [of a s t] Cons.prems(2) t(1) by simp
  with t(2) show ?case
    by (rule Cons.IH) (meson Cons.prems(3) list.set_intros(2))
qed

text \<open>A loop panics with the panic of one of its iterations.\<close>

lemma for_each_Inl:
  assumes "for_each body xs s = Inl e"
  shows "\<exists>a \<in> set xs. \<exists>t. body a t = Inl e"
  using assms
proof (induction xs arbitrary: s)
  case Nil
  then show ?case by simp
next
  case (Cons a xs)
  show ?case
  proof (cases "body a s")
    case (Inl e')
    with Cons.prems have "body a s = Inl e" by simp
    then show ?thesis by auto
  next
    case (Inr t)
    with Cons.prems have "for_each body xs t = Inl e" by simp
    from Cons.IH [OF this] show ?thesis by auto
  qed
qed

text \<open>
  A loop with an iteration that panics whatever the state, and whose iterations have no
  other panic, panics.
\<close>

lemma for_each_panics:
  assumes "a \<in> set xs"
    and "\<And>t. body a t = Inl e"
    and "\<And>b t e'. b \<in> set xs \<Longrightarrow> body b t = Inl e' \<Longrightarrow> e' = e"
  shows "for_each body xs s = Inl e"
  using assms(1,3)
proof (induction xs arbitrary: s)
  case Nil
  then show ?case by simp
next
  case (Cons b xs)
  show ?case
  proof (cases "body b s")
    case (Inl e')
    then have "e' = e" using Cons.prems(2) [of b s e'] by simp
    with Inl show ?thesis by simp
  next
    case (Inr t)
    then have "b \<noteq> a" using assms(2) [of s] by auto
    with Cons.prems(1) have "a \<in> set xs" by simp
    then have "for_each body xs t = Inl e"
      by (rule Cons.IH) (meson Cons.prems(2) list.set_intros(2))
    with Inr show ?thesis by simp
  qed
qed

text \<open>
  A loop that never panics under \<open>P\<close>, with an iteration that establishes \<open>Q\<close> and the
  others keeping it, ends in \<open>Q\<close>.
\<close>

lemma for_each_reaches:
  assumes "P s" "a \<in> set xs \<or> Q s"
    and "\<And>b t. b \<in> set xs \<Longrightarrow> P t \<Longrightarrow> \<exists>t'. body b t = Inr t' \<and> P t' \<and> (Q t \<longrightarrow> Q t')"
    and "\<And>t. P t \<Longrightarrow> \<exists>t'. body a t = Inr t' \<and> Q t'"
  shows "\<exists>s'. for_each body xs s = Inr s' \<and> P s' \<and> Q s'"
  using assms(1,2,3)
proof (induction xs arbitrary: s)
  case Nil
  then show ?case by simp
next
  case (Cons b xs)
  from Cons.prems(3) [of b s] Cons.prems(1) obtain t where
    t: "body b s = Inr t" "P t" "Q s \<longrightarrow> Q t"
    by auto
  have "a \<in> set xs \<or> Q t"
  proof (cases "b = a")
    case True
    with assms(4) [OF Cons.prems(1)] t(1) show ?thesis by auto
  next
    case False
    with Cons.prems(2) t(3) show ?thesis by auto
  qed
  with t(2) have "\<exists>s'. for_each body xs t = Inr s' \<and> P s' \<and> Q s'"
    by (rule Cons.IH) (meson Cons.prems(3) list.set_intros(2))
  with t(1) show ?case by simp
qed

section \<open>Arithmetic in i32\<close>

lemma i32_checked_in_range:
  "- (2 ^ 31) \<le> v \<Longrightarrow> v < 2 ^ 31 \<Longrightarrow> i32_checked overflow_checks v = Inr v"
  by (simp add: i32_checked_def)

lemma i32_checked_Inl:
  "i32_checked overflow_checks v = Inl e \<Longrightarrow> e = ArithmeticOverflow \<and> overflow_checks"
  by (auto simp: i32_checked_def split: if_splits)

lemma i32_wrapping: "\<exists>w. i32_checked False v = Inr w"
  by (simp add: i32_checked_def)

lemma as_i32_le: "as_i32 n \<le> int n"
proof -
  have "(int n + 2 ^ 31) mod 2 ^ 32 \<le> int n + 2 ^ 31"
    by (rule zmod_le_nonneg_dividend) simp
  then show ?thesis by (simp add: as_i32_def i32_wrap_def)
qed

lemma as_i32_small: "n < 2 ^ 31 \<Longrightarrow> as_i32 n = int n"
  by (simp add: as_i32_def i32_wrap_def)

section \<open>The neighbourhood search\<close>

text \<open>The guard keeps every read inside the mask: an iteration panics by overflow only.\<close>

lemma guarded_read:
  assumes "0 \<le> nx" "nx < as_i32 (img_width m)" "0 \<le> ny" "ny < as_i32 (img_height m)"
  shows "get_pixel m (nat nx) (nat ny) = Inr (img_pixel m (nat nx, nat ny))"
proof -
  have "nat nx < img_width m" "nat ny < img_height m"
    using assms as_i32_le [of "img_width m"] as_i32_le [of "img_height m"] by linarith+
  then show ?thesis by (simp add: get_pixel_def)
qed

lemma neighbor_step_Inl:
  assumes "neighbor_step overflow_checks m x y ins dy dx md = Inl e"
  shows "e = ArithmeticOverflow \<and> overflow_checks"
  using assms
  by (auto simp: neighbor_step_def and_then_def Let_def guarded_read
      split: sum.splits if_splits dest: i32_checked_Inl)

lemma search_Inl:
  assumes "for_each (\<lambda>dy. for_each (neighbor_step overflow_checks m x y ins dy) ds) es md = Inl e"
  shows "e = ArithmeticOverflow \<and> overflow_checks"
proof -
  from for_each_Inl [OF assms] obtain dy t where
    "for_each (neighbor_step overflow_checks m x y ins dy) ds t = Inl e"
    by blast
  from for_each_Inl [OF this] show ?thesis
    using neighbor_step_Inl by blast
qed

text \<open>
  Every mask access is in bounds: with a pixel of the mask, the search never panics on
  an index, whatever the range.
\<close>

lemma calculate_distance_Inl:
  assumes "x < img_width m" "y < img_height m"
    and "calculate_distance_to_edge overflow_checks m x y max_range = Inl e"
  shows "e = ArithmeticOverflow \<and> overflow_checks"
  using assms
  by (auto simp: calculate_distance_to_edge_def get_pixel_def Let_def and_then_def
      split: sum.splits dest: i32_checked_Inl search_Inl)

declare upto_rec_numeral [simp del]

text \<open>
  Without overflow checks an iteration always returns, and the running minimum only
  goes down, never below zero.
\<close>

lemma neighbor_step_wrapping:
  "\<exists>md'. neighbor_step False m x y ins dy dx md = Inr md' \<and> md' \<le> md \<and> (0 \<le> md \<longrightarrow> 0 \<le> md')"
proof -
  obtain nx where nx: "i32_checked False (as_i32 x + dx) = Inr nx"
    using i32_wrapping by blast
  obtain ny where ny: "i32_checked False (as_i32 y + dy) = Inr ny"
    using i32_wrapping by blast
  obtain xx where xx: "i32_checked False (dx * dx) = Inr xx"
    using i32_wrapping by blast
  obtain yy where yy: "i32_checked False (dy * dy) = Inr yy"
    using i32_wrapping by blast
  obtain v where v: "i32_checked False (xx + yy) = Inr v"
    using i32_wrapping by blast
  show ?thesis
  proof (cases "0 \<le> nx \<and> nx < as_i32 (img_width m) \<and> 0 \<le> ny \<and> ny < as_i32 (img_height m)")
    case True
    then have "get_pixel m (nat nx) (nat ny) = Inr (img_pixel m (nat nx, nat ny))"
      by (simp add: guarded_read)
    with True show ?thesis
      by (simp add: neighbor_step_def nx ny xx yy v Let_def)
  next
    case False
    then show ?thesis
      by (auto simp: neighbor_step_def nx ny)
  qed
qed


lemma search_row_wrapping:
  "\<exists>md'. for_each (neighbor_step False m x y ins dy) ds md = Inr md' \<and>
          md' \<le> md \<and> (0 \<le> md \<longrightarrow> 0 \<le> md')"
proof (rule for_each_invariant [where P = "\<lambda>u. u \<le> md \<and> (0 \<le> md \<longrightarrow> 0 \<le> u)"])
  show "md \<le> md \<and> (0 \<le> md \<longrightarrow> 0 \<le> md)" by simp
next
  fix dx t
  assume "t \<le> md \<and> (0 \<le> md \<longrightarrow> 0 \<le> t)"
  with neighbor_step_wrapping [of m x y ins dy dx t]
  show "\<exists>t'. neighbor_step False m x y ins dy dx t = Inr t' \<and> t' \<le> md \<and> (0 \<le> md \<longrightarrow> 0 \<le> t')"
    by auto
qed

lemma search_wrapping:
  "\<exists>md'. for_each (\<lambda>dy. for_each (neighbor_step False m x y ins dy) ds) es md = Inr md' \<and>
          md' \<le> md \<and> (0 \<le> md \<longrightarrow> 0 \<le> md')"
proof (rule for_each_invariant [where P = "\<lambda>u. u \<le> md \<and> (0 \<le> md \<longrightarrow> 0 \<le> u)"])
  show "md \<le> md \<and> (0 \<le> md \<longrightarrow> 0 \<le> md)" by simp
next
  fix dy t
  assume "t \<le> md \<and> (0 \<le> md \<longrightarrow> 0 \<le> t)"
  with search_row_wrapping [of m x y ins dy ds t]
  show "\<exists>t'. for_each (neighbor_step False m x y ins dy) ds t = Inr t' \<and>
          t' \<le> md \<and> (0 \<le> md \<longrightarrow> 0 \<le> t')"
    by auto
qed

text \<open>Without overflow checks the search returns for every pixel of every mask.\<close>

lemma calculate_distance_wrapping_returns:
  assumes "x < img_width m" "y < img_height m"
  shows "\<exists>d. calculate_distance_to_edge False m x y max_range = Inr d"
proof -
  obtain lowest where l: "i32_checked False (- ceil_as_i32 max_range) = Inr lowest"
    using i32_wrapping by blast
  obtain md where
    "for_each (\<lambda>dy. for_each (neighbor_step False m x y (128 < img_pixel m (x, y)) dy)
        [lowest..ceil_as_i32 max_range]) [lowest..ceil_as_i32 max_range] max_range = Inr md"
    using search_wrapping by blast
  then show ?thesis
    using assms by (simp add: calculate_distance_to_edge_def get_pixel_def Let_def l)
qed

section \<open>The search on the wide mask\<close>

lemma wide_mask_pixel: "get_pixel wide_mask 0 0 = Inr 255"
  by (simp add: wide_mask_def get_pixel_def)

lemma wide_mask_radius: "ceil_as_i32 65536 = 65536"
  by (simp add: ceil_as_i32_def)

text \<open>The iteration that meets the boundary: \<open>dx * dx\<close> is \<open>2 ^ 32\<close>.\<close>

lemma wide_mask_step_checked:
  "neighbor_step True wide_mask 0 0 True 0 65536 md = Inl ArithmeticOverflow"
  by (simp add: neighbor_step_def as_i32_def i32_wrap_def i32_checked_def get_pixel_def
      wide_mask_def)

lemma wide_mask_step_wrapping:
  "neighbor_step False wide_mask 0 0 True 0 65536 md = Inr (min md 0)"
  by (simp add: neighbor_step_def as_i32_def i32_wrap_def i32_checked_def get_pixel_def
      wide_mask_def)

lemma wide_mask_checked:
  "calculate_distance_to_edge True wide_mask 0 0 65536 = Inl ArithmeticOverflow"
proof -
  have row: "for_each (neighbor_step True wide_mask 0 0 True 0) [- 65536..65536] t =
             Inl ArithmeticOverflow" for t
  proof (rule for_each_panics [where a = 65536])
    show "(65536::int) \<in> set [- 65536..65536]" by simp
    show "neighbor_step True wide_mask 0 0 True 0 65536 t = Inl ArithmeticOverflow" for t
      by (rule wide_mask_step_checked)
    show "e' = ArithmeticOverflow"
      if "neighbor_step True wide_mask 0 0 True 0 b t = Inl e'" for b t e'
      using neighbor_step_Inl [OF that] by simp
  qed
  have "for_each (\<lambda>dy. for_each (neighbor_step True wide_mask 0 0 True dy) [- 65536..65536])
          [- 65536..65536] 65536 = Inl ArithmeticOverflow"
  proof (rule for_each_panics [where a = 0])
    show "(0::int) \<in> set [- 65536..65536]" by simp
    show "for_each (neighbor_step True wide_mask 0 0 True 0) [- 65536..65536] t =
          Inl ArithmeticOverflow" for t
      by (rule row)
    show "e' = ArithmeticOverflow"
      if "for_each (neighbor_step True wide_mask 0 0 True b) [- 65536..65536] t = Inl e'"
      for b t e'
      using for_each_Inl [OF that] neighbor_step_Inl by blast
  qed
  then show ?thesis
    by (simp add: calculate_distance_to_edge_def wide_mask_pixel wide_mask_radius
        i32_checked_def Let_def)
qed

lemma wide_mask_wrapping:
  "calculate_distance_to_edge False wide_mask 0 0 65536 = Inr 0"
proof -
  have row: "\<exists>t'. for_each (neighbor_step False wide_mask 0 0 True 0) [- 65536..65536] t = Inr t' \<and>
               0 \<le> t' \<and> t' \<le> 0" if "0 \<le> t" for t
  proof (rule for_each_reaches [where a = 65536 and P = "\<lambda>u. 0 \<le> u" and Q = "\<lambda>u. u \<le> 0"])
    show "0 \<le> t" by (rule that)
    show "(65536::int) \<in> set [- 65536..65536] \<or> t \<le> 0" by simp
    show "\<exists>t'. neighbor_step False wide_mask 0 0 True 0 b u = Inr t' \<and> 0 \<le> t' \<and> (u \<le> 0 \<longrightarrow> t' \<le> 0)"
      if "0 \<le> u" for b u
      using neighbor_step_wrapping [of wide_mask 0 0 True 0 b u] that by auto
    show "\<exists>t'. neighbor_step False wide_mask 0 0 True 0 65536 u = Inr t' \<and> t' \<le> 0" for u
      by (simp add: wide_mask_step_wrapping)
  qed
  have "\<exists>md. for_each (\<lambda>dy. for_each (neighbor_step False wide_mask 0 0 True dy) [- 65536..65536])
          [- 65536..65536] 65536 = Inr md \<and> 0 \<le> md \<and> md \<le> 0"
  proof (rule for_each_reaches [where a = 0 and P = "\<lambda>u. 0 \<le> u" and Q = "\<lambda>u. u \<le> 0"])
    show "(0::real) \<le> 65536" by simp
    show "(0::int) \<in> set [- 65536..65536] \<or> (65536::real) \<le> 0" by simp
    show "\<exists>t'. for_each (neighbor_step False wide_mask 0 0 True b) [- 65536..65536] u = Inr t' \<and>
            0 \<le> t' \<and> (u \<le> 0 \<longrightarrow> t' \<le> 0)"
      if "0 \<le> u" for b u
      using search_row_wrapping [of wide_mask 0 0 True b "[- 65536..65536]" u] that by auto
    show "\<exists>t'. for_each (neighbor_step False wide_mask 0 0 True 0) [- 65536..65536] u = Inr t' \<and> t' \<le> 0"
      if "0 \<le> u" for u
      using row [OF that] by auto
  qed
  then obtain md where
    "for_each (\<lambda>dy. for_each (neighbor_step False wide_mask 0 0 True dy) [- 65536..65536])
          [- 65536..65536] 65536 = Inr md" "md = 0"
    by auto
  then show ?thesis
    by (simp add: calculate_distance_to_edge_def wide_mask_pixel wide_mask_radius
        i32_checked_def Let_def)
qed

text \<open>
  C3. The claim is that the distance of an inside pixel is negative. On the wide mask
  the pixel \<open>(0, 0)\<close> is inside (255 is above 128) and, with the range 65536, its only
  boundary is 65536 pixels to the right: \<open>dx * dx\<close> is \<open>2 ^ 32\<close> and leaves
  \<^verbatim>\<open>i32\<close>. With overflow checks the search panics and there is no distance; without
  them the product wraps to 0, the minimum becomes \<open>sqrt 0\<close>, and the distance returned
  for the inside pixel is zero, which is not negative.
\<close>

theorem sdf_sign_lost_by_overflow:
  "get_pixel wide_mask 0 0 = Inr 255 \<and> (128 :: u8) < 255 \<and>
   calculate_distance_to_edge True wide_mask 0 0 65536 = Inl ArithmeticOverflow \<and>
   calculate_distance_to_edge False wide_mask 0 0 65536 = Inr 0"
  using wide_mask_pixel wide_mask_checked wide_mask_wrapping by simp

text \<open>
  C10. The claim is that the search always returns. With overflow checks it does not:
  on a mask of two pixels and a range of \<open>2 ^ 31\<close> the search radius is
  \<open>2 ^ 31 - 1\<close> (the cast saturates), and at the pixel \<open>x = 1\<close> the sum
  \<^verbatim>\<open>x as i32 + dx\<close> reaches \<open>2 ^ 31\<close> at the end of the first row: the search panics.
\<close>

theorem distance_search_overflow_panics:
  "calculate_distance_to_edge True
     \<lparr>img_width = 2, img_height = 1, img_pixel = (\<lambda>_. 0)\<rparr> 1 0 2147483648 =
   Inl ArithmeticOverflow"
proof -
  let ?m = "\<lparr>img_width = 2, img_height = 1, img_pixel = (\<lambda>_. 0)\<rparr> :: u8 image"
  have step: "neighbor_step True ?m 1 0 ins dy 2147483647 t = Inl ArithmeticOverflow" for ins dy t
    by (simp add: neighbor_step_def as_i32_def i32_wrap_def i32_checked_def)
  have row: "for_each (neighbor_step True ?m 1 0 ins dy) [- 2147483647..2147483647] t =
             Inl ArithmeticOverflow" for ins dy t
  proof (rule for_each_panics [where a = 2147483647])
    show "(2147483647::int) \<in> set [- 2147483647..2147483647]" by simp
    show "neighbor_step True ?m 1 0 ins dy 2147483647 t = Inl ArithmeticOverflow" for t
      by (rule step)
    show "e' = ArithmeticOverflow"
      if "neighbor_step True ?m 1 0 ins dy b t = Inl e'" for b t e'
      using neighbor_step_Inl [OF that] by simp
  qed
  have "for_each (\<lambda>dy. for_each (neighbor_step True ?m 1 0 ins dy) [- 2147483647..2147483647])
          [- 2147483647..2147483647] md = Inl ArithmeticOverflow" for ins md
  proof (rule for_each_panics [where a = 0])
    show "(0::int) \<in> set [- 2147483647..2147483647]" by simp
    show "for_each (neighbor_step True ?m 1 0 ins 0) [- 2147483647..2147483647] t =
          Inl ArithmeticOverflow" for t
      by (rule row)
    show "e' = ArithmeticOverflow"
      if "for_each (neighbor_step True ?m 1 0 ins b) [- 2147483647..2147483647] t = Inl e'"
      for b t e'
      using for_each_Inl [OF that] neighbor_step_Inl by blast
  qed
  moreover have "ceil_as_i32 2147483648 = 2147483647"
    by (simp add: ceil_as_i32_def)
  ultimately show ?thesis
    by (simp add: calculate_distance_to_edge_def get_pixel_def i32_checked_def Let_def)
qed

section \<open>The search on small masks\<close>

lemma small_square:
  fixes d :: int
  assumes "- 32768 < d" "d < 32768"
  shows "d * d < 2 ^ 30"
proof -
  have "\<bar>d\<bar> * \<bar>d\<bar> \<le> 32767 * 32767"
    using assms by (intro mult_mono) simp_all
  then show ?thesis by (simp add: abs_mult_self_eq)
qed

text \<open>
  On a mask of at most \<open>2 ^ 15\<close> pixels a side and with offsets of at most \<open>2 ^ 30\<close>,
  nothing overflows. A neighbour that differs from the pixel is not the pixel itself, so
  its distance is positive: the running minimum stays in \<open>(0, r]\<close>.
\<close>

lemma neighbor_step_small:
  assumes ins: "is_inside = (128 < img_pixel m (x, y))"
    and xy: "x < img_width m" "y < img_height m"
    and wh: "img_width m \<le> 32768" "img_height m \<le> 32768"
    and d: "\<bar>dx\<bar> \<le> 2 ^ 30" "\<bar>dy\<bar> \<le> 2 ^ 30"
    and md: "0 < md" "md \<le> r"
  shows "\<exists>md'. neighbor_step overflow_checks m x y is_inside dy dx md = Inr md' \<and>
           0 < md' \<and> md' \<le> r"
proof -
  have cast: "as_i32 x = int x" "as_i32 y = int y"
    "as_i32 (img_width m) = int (img_width m)" "as_i32 (img_height m) = int (img_height m)"
    using xy wh by (simp_all add: as_i32_small)
  have nx: "i32_checked overflow_checks (int x + dx) = Inr (int x + dx)"
    using xy(1) wh(1) d(1) by (intro i32_checked_in_range) simp_all
  have ny: "i32_checked overflow_checks (int y + dy) = Inr (int y + dy)"
    using xy(2) wh(2) d(2) by (intro i32_checked_in_range) simp_all
  show ?thesis
  proof (cases "0 \<le> int x + dx \<and> int x + dx < int (img_width m) \<and>
                0 \<le> int y + dy \<and> int y + dy < int (img_height m)")
    case False
    with md show ?thesis by (auto simp: neighbor_step_def cast nx ny)
  next
    case True
    then have px: "get_pixel m (nat (int x + dx)) (nat (int y + dy)) =
                   Inr (img_pixel m (nat (int x + dx), nat (int y + dy)))"
      by (intro guarded_read) (simp_all add: cast)
    show ?thesis
    proof (cases "is_inside \<noteq> (128 < img_pixel m (nat (int x + dx), nat (int y + dy)))")
      case False
      with True px md show ?thesis by (simp add: neighbor_step_def cast nx ny Let_def)
    next
      case differs: True
      have near: "- 32768 < dx" "dx < 32768" "- 32768 < dy" "dy < 32768"
        using True xy wh by linarith+
      have sq: "dx * dx < 2 ^ 30" "dy * dy < 2 ^ 30"
        by (rule small_square [OF near(1,2)], rule small_square [OF near(3,4)])
      have "\<not> (dx = 0 \<and> dy = 0)"
        using differs ins by auto
      then have pos: "0 < dx * dx + dy * dy"
        by (metis add_pos_nonneg add_nonneg_pos zero_le_square mult_eq_0_iff less_le)
      have xx: "i32_checked overflow_checks (dx * dx) = Inr (dx * dx)"
        using sq(1) by (intro i32_checked_in_range) (simp_all add: order.trans [of _ 0])
      have yy: "i32_checked overflow_checks (dy * dy) = Inr (dy * dy)"
        using sq(2) by (intro i32_checked_in_range) (simp_all add: order.trans [of _ 0])
      have v: "i32_checked overflow_checks (dx * dx + dy * dy) = Inr (dx * dx + dy * dy)"
        using sq pos by (intro i32_checked_in_range) simp_all
      have "0 < real_of_int (dx * dx + dy * dy)"
        using pos by (simp only: of_int_0_less_iff)
      then have root: "0 < sqrt (real_of_int (dx * dx + dy * dy))"
        by (simp only: real_sqrt_gt_0_iff)
      have "neighbor_step overflow_checks m x y is_inside dy dx md =
            Inr (min md (sqrt (real_of_int (dx * dx + dy * dy))))"
        using True px differs pos
        by (simp add: neighbor_step_def cast nx ny xx yy v Let_def del: of_int_add of_int_mult)
      with root md show ?thesis
        by (auto simp only: min_def split: if_splits)
    qed
  qed
qed

lemma search_small:
  assumes "is_inside = (128 < img_pixel m (x, y))"
    and "x < img_width m" "y < img_height m"
    and "img_width m \<le> 32768" "img_height m \<le> 32768"
    and "\<forall>d \<in> set ds. \<bar>d\<bar> \<le> 2 ^ 30" and "0 < r"
  shows "\<exists>md. for_each (\<lambda>dy. for_each (neighbor_step overflow_checks m x y is_inside dy) ds)
                 ds r = Inr md \<and> 0 < md \<and> md \<le> r"
proof (rule for_each_invariant [where P = "\<lambda>md. 0 < md \<and> md \<le> r"])
  show "0 < r \<and> r \<le> r" using assms(7) by simp
next
  fix dy t
  assume dy: "dy \<in> set ds" and t: "0 < t \<and> t \<le> r"
  show "\<exists>t'. for_each (neighbor_step overflow_checks m x y is_inside dy) ds t = Inr t' \<and>
               0 < t' \<and> t' \<le> r"
  proof (rule for_each_invariant [where P = "\<lambda>md. 0 < md \<and> md \<le> r"])
    show "0 < t \<and> t \<le> r" by (rule t)
  next
    fix dx u
    assume dx: "dx \<in> set ds" and u: "0 < u \<and> u \<le> r"
    from assms(6) dx dy have "\<bar>dx\<bar> \<le> 2 ^ 30" "\<bar>dy\<bar> \<le> 2 ^ 30" by simp_all
    with u show "\<exists>t'. neighbor_step overflow_checks m x y is_inside dy dx u = Inr t' \<and>
                   0 < t' \<and> t' \<le> r"
      by (intro neighbor_step_small assms(1-5)) simp_all
  qed
qed

text \<open>
  On a mask of at most \<open>2 ^ 15\<close> pixels a side and for a range of at most \<open>2 ^ 30\<close>
  the search returns in either build profile, and the distance has the sign of the
  pixel's classification and an absolute value of at most the range.
\<close>

lemma sdf_sign_and_bound_small:
  assumes "x < img_width m" "y < img_height m"
    and "img_width m \<le> 32768" "img_height m \<le> 32768"
    and "0 < max_range" "max_range \<le> 2 ^ 30"
  shows "\<exists>d. calculate_distance_to_edge overflow_checks m x y max_range = Inr d \<and>
           (d < 0 \<longleftrightarrow> 128 < img_pixel m (x, y)) \<and>
           (0 < d \<longleftrightarrow> \<not> 128 < img_pixel m (x, y)) \<and>
           \<bar>d\<bar> \<le> max_range"
proof -
  define R where "R = \<lceil>max_range\<rceil>"
  have R: "0 < R" "R \<le> 2 ^ 30"
    unfolding R_def using assms(5,6) by (simp_all add: ceiling_le_iff)
  then have radius: "ceil_as_i32 max_range = R"
    by (simp add: ceil_as_i32_def R_def [symmetric])
  have lowest: "i32_checked overflow_checks (- R) = Inr (- R)"
    using R by (intro i32_checked_in_range) simp_all
  have "\<forall>d \<in> set [- R..R]. \<bar>d\<bar> \<le> 2 ^ 30"
    using R by auto
  from search_small [OF refl assms(1-4) this assms(5)] obtain md where
    "for_each (\<lambda>dy. for_each (neighbor_step overflow_checks m x y (128 < img_pixel m (x, y)) dy)
        [- R..R]) [- R..R] max_range = Inr md"
    "0 < md" "md \<le> max_range"
    by blast
  then show ?thesis
    using assms(1,2)
    by (simp add: calculate_distance_to_edge_def get_pixel_def Let_def radius lowest)
qed

text \<open>
  The search reads nothing outside the mask: it gives the same outcome on every mask of
  the same dimensions that agrees with this one inside them.
\<close>

lemma get_pixel_same: "same_in_bounds m' m \<Longrightarrow> get_pixel m' x y = get_pixel m x y"
  by (simp add: same_in_bounds_def get_pixel_def)

lemma neighbor_step_same:
  assumes "same_in_bounds m' m"
  shows "neighbor_step overflow_checks m' x y ins dy dx md =
         neighbor_step overflow_checks m x y ins dy dx md"
proof -
  have "img_width m' = img_width m" "img_height m' = img_height m"
    using assms by (simp_all add: same_in_bounds_def)
  then show ?thesis
    by (simp add: neighbor_step_def Let_def get_pixel_same [OF assms] cong: if_cong)
qed

lemma calculate_distance_same:
  assumes "same_in_bounds m' m"
  shows "calculate_distance_to_edge overflow_checks m' x y max_range =
         calculate_distance_to_edge overflow_checks m x y max_range"
proof -
  have "neighbor_step overflow_checks m' x y = neighbor_step overflow_checks m x y"
    by (intro ext) (rule neighbor_step_same [OF assms])
  then show ?thesis
    by (simp add: calculate_distance_to_edge_def get_pixel_same [OF assms])
qed

section \<open>Filling an image pixel by pixel\<close>

lemma fill_row:
  assumes "img_width img = w" "img_height img = h" "y < h"
    and "\<forall>x \<in> set xs. x < w"
    and "\<And>x. x < w \<Longrightarrow> src x y = Inr (val x y)"
  shows "for_each (\<lambda>x img. and_then (src x y) (\<lambda>v. put_pixel img x y (conv v))) xs img =
         Inr (img\<lparr>img_pixel := (\<lambda>(a, b). if b = y \<and> a \<in> set xs then conv (val a b)
                                          else img_pixel img (a, b))\<rparr>)"
  using assms(1,2,4)
proof (induction xs arbitrary: img)
  case Nil
  then show ?case by simp
next
  case (Cons x xs)
  let ?img1 = "img\<lparr>img_pixel := (img_pixel img)((x, y) := conv (val x y))\<rparr>"
  have x: "x < w" using Cons.prems by simp
  have step: "and_then (src x y) (\<lambda>v. put_pixel img x y (conv v)) = Inr ?img1"
    using x assms(3,5) Cons.prems(1,2) by (simp add: put_pixel_def)
  have "for_each (\<lambda>x img. and_then (src x y) (\<lambda>v. put_pixel img x y (conv v))) xs ?img1 =
         Inr (?img1\<lparr>img_pixel := (\<lambda>(a, b). if b = y \<and> a \<in> set xs then conv (val a b)
                                          else img_pixel ?img1 (a, b))\<rparr>)"
    by (rule Cons.IH) (use Cons.prems in simp_all)
  moreover have
    "(\<lambda>(a, b). if b = y \<and> a \<in> set xs then conv (val a b) else img_pixel ?img1 (a, b)) =
     (\<lambda>(a, b). if b = y \<and> a \<in> set (x # xs) then conv (val a b) else img_pixel img (a, b))"
    by (auto simp: fun_eq_iff)
  ultimately show ?case
    using step by simp
qed

lemma fill_rows:
  assumes "img_width img = w" "img_height img = h"
    and "\<forall>y \<in> set ys. y < h"
    and "\<And>x y. x < w \<Longrightarrow> y < h \<Longrightarrow> src x y = Inr (val x y)"
  shows "for_each (\<lambda>y. for_each (\<lambda>x img. and_then (src x y) (\<lambda>v. put_pixel img x y (conv v)))
                         [0..<w]) ys img =
         Inr (img\<lparr>img_pixel := (\<lambda>(a, b). if b \<in> set ys \<and> a < w then conv (val a b)
                                          else img_pixel img (a, b))\<rparr>)"
  using assms(1,2,3)
proof (induction ys arbitrary: img)
  case Nil
  then show ?case by simp
next
  case (Cons y ys)
  let ?img1 = "img\<lparr>img_pixel := (\<lambda>(a, b). if b = y \<and> a \<in> set [0..<w] then conv (val a b)
                                          else img_pixel img (a, b))\<rparr>"
  have y: "y < h" using Cons.prems by simp
  have row: "for_each (\<lambda>x img. and_then (src x y) (\<lambda>v. put_pixel img x y (conv v))) [0..<w] img =
             Inr ?img1"
    by (rule fill_row [OF Cons.prems(1,2) y]) (simp_all add: assms(4) y)
  have "for_each (\<lambda>y. for_each (\<lambda>x img. and_then (src x y) (\<lambda>v. put_pixel img x y (conv v)))
                        [0..<w]) ys ?img1 =
         Inr (?img1\<lparr>img_pixel := (\<lambda>(a, b). if b \<in> set ys \<and> a < w then conv (val a b)
                                          else img_pixel ?img1 (a, b))\<rparr>)"
    by (rule Cons.IH) (use Cons.prems in simp_all)
  moreover have
    "(\<lambda>(a, b). if b \<in> set ys \<and> a < w then conv (val a b) else img_pixel ?img1 (a, b)) =
     (\<lambda>(a, b). if b \<in> set (y # ys) \<and> a < w then conv (val a b) else img_pixel img (a, b))"
    by (auto simp: fun_eq_iff)
  ultimately show ?case
    using row by simp
qed

lemma fill_image:
  assumes "\<And>x y. x < w \<Longrightarrow> y < h \<Longrightarrow> src x y = Inr (val x y)"
  shows "for_each (\<lambda>y. for_each (\<lambda>x img. and_then (src x y) (\<lambda>v. put_pixel img x y (conv v)))
                         [0..<w]) [0..<h] (new_image w h z) =
         Inr \<lparr>img_width = w, img_height = h,
              img_pixel = (\<lambda>(a, b). if a < w \<and> b < h then conv (val a b) else z)\<rparr>"
proof -
  have "for_each (\<lambda>y. for_each (\<lambda>x img. and_then (src x y) (\<lambda>v. put_pixel img x y (conv v)))
                        [0..<w]) [0..<h] (new_image w h z) =
        Inr ((new_image w h z)\<lparr>img_pixel :=
               (\<lambda>(a, b). if b \<in> set [0..<h] \<and> a < w then conv (val a b)
                         else img_pixel (new_image w h z) (a, b))\<rparr>)"
    by (rule fill_rows [where h = h]) (simp_all add: new_image_def assms)
  moreover have
    "(\<lambda>(a, b). if b \<in> set [0..<h] \<and> a < w then conv (val a b)
               else img_pixel (new_image w h z) (a, b)) =
     (\<lambda>(a, b). if a < w \<and> b < h then conv (val a b) else z)"
    by (auto simp: fun_eq_iff new_image_def)
  ultimately show ?thesis
    by (simp add: new_image_def)
qed


text \<open>A fill that returns has kept the dimensions and every pixel outside them.\<close>

lemma fill_frame:
  fixes img img' :: "'p image"
  assumes "for_each (\<lambda>y. for_each (\<lambda>x img. and_then (src x y) (\<lambda>v. put_pixel img x y (conv v)))
                            xs) ys img = Inr img'"
  shows "img_width img' = img_width img \<and> img_height img' = img_height img \<and>
         (\<forall>a b. \<not> (a < img_width img \<and> b < img_height img) \<longrightarrow>
                img_pixel img' (a, b) = img_pixel img (a, b))"
proof -
  define P where "P = (\<lambda>t :: 'p image.
      img_width t = img_width img \<and> img_height t = img_height img \<and>
      (\<forall>a b. \<not> (a < img_width img \<and> b < img_height img) \<longrightarrow>
             img_pixel t (a, b) = img_pixel img (a, b)))"
  have step: "P t'" if "P t" "and_then (src x y) (\<lambda>v. put_pixel t x y (conv v)) = Inr t'"
    for x y t t'
    using that
    by (auto simp: P_def and_then_def put_pixel_def split: sum.splits if_splits)
  have row: "P t'"
    if "P t" "for_each (\<lambda>x img. and_then (src x y) (\<lambda>v. put_pixel img x y (conv v))) xs t = Inr t'"
    for y t t'
    using that(2,1) by (rule for_each_preserves) (rule step)
  have "P img'"
    using assms by (rule for_each_preserves) (simp add: P_def, rule row)
  then show ?thesis by (simp add: P_def)
qed

text \<open>
  C9. Whatever the mask, the range and the build profile: when the single-channel
  generator returns a field, the multi-channel generator returns one too, and each of
  its three channels is the single-channel field, with the same dimensions and the same
  value at every pixel; when the single-channel generator panics, the multi-channel one,
  which calls it first, panics in the same way.
\<close>

theorem msdf_replicates_sdf:
  "case generate_sdf_from_mask overflow_checks m rng of
     Inl e \<Rightarrow> generate_msdf_from_mask overflow_checks m rng = Inl e
   | Inr sdf \<Rightarrow>
       (\<exists>msdf. generate_msdf_from_mask overflow_checks m rng = Inr msdf \<and>
               channel fst msdf = sdf \<and>
               channel (\<lambda>p. fst (snd p)) msdf = sdf \<and>
               channel (\<lambda>p. snd (snd p)) msdf = sdf)"
proof (cases "generate_sdf_from_mask overflow_checks m rng")
  case (Inl e)
  then show ?thesis by (simp add: generate_msdf_from_mask_def)
next
  case (Inr sdf)
  define w where "w = img_width m"
  define h where "h = img_height m"
  from Inr have frame: "img_width sdf = w" "img_height sdf = h"
    "\<And>a b. \<not> (a < w \<and> b < h) \<Longrightarrow> img_pixel sdf (a, b) = 0"
    unfolding generate_sdf_from_mask_def Let_def w_def [symmetric] h_def [symmetric]
    by (auto dest!: fill_frame simp: new_image_def)
  define msdf :: "rgb image" where "msdf = \<lparr>img_width = w, img_height = h,
      img_pixel = (\<lambda>(a, b). if a < w \<and> b < h
         then (img_pixel sdf (a, b), img_pixel sdf (a, b), img_pixel sdf (a, b))
         else (0, 0, 0))\<rparr>"
  have px: "get_pixel sdf x y = Inr (img_pixel sdf (x, y))" if "x < w" "y < h" for x y
    using that by (simp add: get_pixel_def frame)
  have "for_each (\<lambda>y. for_each (\<lambda>x msdf.
             and_then (get_pixel sdf x y) (\<lambda>gray. put_pixel msdf x y (gray, gray, gray)))
           [0..<w]) [0..<h] (new_image w h (0, 0, 0)) = Inr msdf"
    unfolding msdf_def
    by (rule fill_image [where conv = "\<lambda>g. (g, g, g)" and val = "\<lambda>a b. img_pixel sdf (a, b)"])
      (rule px)
  then have ms: "generate_msdf_from_mask overflow_checks m rng = Inr msdf"
    by (simp add: generate_msdf_from_mask_def Inr Let_def frame)
  have "channel sel msdf = sdf"
    if "\<And>g. sel (g, g, g) = g" for sel
  proof (rule image.equality)
    show "img_pixel (channel sel msdf) = img_pixel sdf"
      using that frame(3) by (auto simp: channel_def msdf_def fun_eq_iff)
  qed (simp_all add: channel_def msdf_def frame)
  then have "channel fst msdf = sdf" "channel (\<lambda>p. fst (snd p)) msdf = sdf"
    "channel (\<lambda>p. snd (snd p)) msdf = sdf"
    by simp_all
  with ms show ?thesis by (simp add: Inr)
qed

section \<open>The grid side\<close>

declare sqrt_ceil_from.simps [simp del]

lemma sqrt_ceil_from_spec:
  assumes "\<forall>k < g. k * k < n"
  shows "g \<le> sqrt_ceil_from n g \<and> n \<le> sqrt_ceil_from n g * sqrt_ceil_from n g \<and>
         (\<forall>k < sqrt_ceil_from n g. k * k < n)"
  using assms
proof (induction n g rule: sqrt_ceil_from.induct)
  case (1 n g)
  show ?case
  proof (cases "n \<le> g * g")
    case True
    then show ?thesis using "1.prems" by (simp add: sqrt_ceil_from.simps [of n g])
  next
    case False
    then have "\<forall>k < Suc g. k * k < n"
      using "1.prems" by (auto simp: less_Suc_eq)
    from "1.IH" [OF False this] False show ?thesis
      by (simp add: sqrt_ceil_from.simps [of n g])
  qed
qed

lemma sqrt_ceil_upper: "n \<le> sqrt_ceil n * sqrt_ceil n"
  using sqrt_ceil_from_spec [of 0 n] by (simp add: sqrt_ceil_def)

lemma sqrt_ceil_least: "k < sqrt_ceil n \<Longrightarrow> k * k < n"
  using sqrt_ceil_from_spec [of 0 n] by (simp add: sqrt_ceil_def)

lemma sqrt_ceil_eqI:
  assumes "n \<le> g * g" and "\<And>k. k < g \<Longrightarrow> k * k < n"
  shows "sqrt_ceil n = g"
proof (rule antisym)
  show "sqrt_ceil n \<le> g"
  proof (rule ccontr)
    assume "\<not> sqrt_ceil n \<le> g"
    then have "g * g < n" using sqrt_ceil_least [of g n] by simp
    with assms(1) show False by simp
  qed
  show "g \<le> sqrt_ceil n"
  proof (rule ccontr)
    assume "\<not> g \<le> sqrt_ceil n"
    then have "sqrt_ceil n * sqrt_ceil n < n" using assms(2) by simp
    with sqrt_ceil_upper [of n] show False by simp
  qed
qed

lemma sqrt_ceil_0 [simp]: "sqrt_ceil 0 = 0"
  by (rule sqrt_ceil_eqI) simp_all

lemma sqrt_ceil_pos: "0 < n \<Longrightarrow> 0 < sqrt_ceil n"
  using sqrt_ceil_upper [of n] by (cases "sqrt_ceil n = 0") auto

lemma sqrt_ceil_le: "sqrt_ceil n \<le> n"
proof (cases "sqrt_ceil n")
  case 0
  then show ?thesis by simp
next
  case (Suc k)
  then have "k * k < n" using sqrt_ceil_least [of k n] by simp
  moreover have "k \<le> k * k" by (cases k) simp_all
  ultimately show ?thesis using Suc by linarith
qed

text \<open>\<open>sqrt_ceil\<close> is the ceiling of the real square root.\<close>

lemma sqrt_ceil_is_ceiling: "int (sqrt_ceil n) = \<lceil>sqrt (real n)\<rceil>"
proof (rule sym, rule ceiling_unique)
  show "sqrt (real n) \<le> of_int (int (sqrt_ceil n))"
  proof -
    have "real n \<le> (real (sqrt_ceil n))\<^sup>2"
      using sqrt_ceil_upper [of n] by (metis of_nat_le_iff of_nat_mult power2_eq_square)
    then show ?thesis by (simp add: real_le_lsqrt)
  qed
  show "of_int (int (sqrt_ceil n)) - 1 < sqrt (real n)"
  proof (cases "sqrt_ceil n")
    case 0
    then show ?thesis
      by (simp add: order.strict_trans2 [of "-1" 0])
  next
    case (Suc k)
    then have "k * k < n" using sqrt_ceil_least [of k n] by simp
    then have "(real k)\<^sup>2 < real n"
      by (metis of_nat_less_iff of_nat_mult power2_eq_square)
    then have "real k < sqrt (real n)"
      by (simp add: real_less_rsqrt)
    with Suc show ?thesis by simp
  qed
qed

lemma sqrt_ceil_1: "sqrt_ceil 1 = 1"
  by (simp add: sqrt_ceil_def sqrt_ceil_from.simps)

lemma sqrt_ceil_2: "sqrt_ceil 2 = 2"
  by (simp add: sqrt_ceil_def sqrt_ceil_from.simps)

lemma sqrt_ceil_3: "sqrt_ceil 3 = 2"
  by (simp add: sqrt_ceil_def sqrt_ceil_from.simps)


text \<open>
  Rounding to the nearest integer: an integer is kept, and the result stays on the same
  side of every integer as the argument.
\<close>

lemma round_ties_even_of_int [simp]: "round_ties_even (of_int z) = z"
  by (simp add: round_ties_even_def)

lemma round_ties_even_le:
  assumes "x \<le> of_int z"
  shows "round_ties_even x \<le> z"
proof -
  have f: "\<lfloor>x\<rfloor> \<le> z" using floor_mono [OF assms] by simp
  show ?thesis
  proof (cases "x = of_int \<lfloor>x\<rfloor>")
    case True
    then have "round_ties_even x = \<lfloor>x\<rfloor>" by (simp add: round_ties_even_def)
    with f show ?thesis by simp
  next
    case False
    then have "of_int \<lfloor>x\<rfloor> < x"
      by (metis of_int_floor_le order_le_imp_less_or_eq)
    with assms have "of_int \<lfloor>x\<rfloor> < (of_int z :: real)" by linarith
    then have "\<lfloor>x\<rfloor> < z" by simp
    then show ?thesis by (auto simp: round_ties_even_def Let_def)
  qed
qed

lemma round_ties_even_ge:
  assumes "of_int z \<le> x"
  shows "z \<le> round_ties_even x"
proof -
  have "z \<le> \<lfloor>x\<rfloor>" using assms by (simp add: le_floor_iff)
  then show ?thesis by (auto simp: round_ties_even_def Let_def)
qed

lemma round_ties_even_gt:
  assumes "of_int z + 1 / 2 < x"
  shows "z + 1 \<le> round_ties_even x"
proof -
  have z: "z \<le> \<lfloor>x\<rfloor>" using assms by (simp add: le_floor_iff)
  show ?thesis
  proof (cases "z = \<lfloor>x\<rfloor>")
    case True
    with assms have "1 / 2 < x - of_int \<lfloor>x\<rfloor>" by simp
    then show ?thesis using True by (simp add: round_ties_even_def Let_def)
  next
    case False
    with z have "z + 1 \<le> \<lfloor>x\<rfloor>" by simp
    then show ?thesis by (auto simp: round_ties_even_def Let_def)
  qed
qed

text \<open>
  A number whose significand needs no rounding is kept. Every count from 1 to \<open>2 ^ 24\<close>
  is such a number.
\<close>

lemma f32_round_exact:
  assumes "x \<noteq> 0" and "x / 2 powr (of_int \<lfloor>log 2 \<bar>x\<bar>\<rfloor> - 23) = of_int z"
  shows "f32_round x = x"
proof -
  have "of_int z * 2 powr (of_int \<lfloor>log 2 \<bar>x\<bar>\<rfloor> - 23) = x"
    using assms(2) by (simp add: field_simps)
  then show ?thesis
    using assms by (simp add: f32_round_def Let_def)
qed

lemma floor_log2:
  fixes x :: real
  assumes "2 ^ k \<le> x" "x < 2 ^ Suc k"
  shows "\<lfloor>log 2 x\<rfloor> = int k"
proof -
  have x: "0 < x" using assms(1) by (rule less_le_trans [rotated]) simp
  have "2 powr (of_int (int k)) \<le> x \<and> x < 2 powr (of_int (int k + 1))"
    using assms by (simp add: powr_realpow powr_add)
  then show ?thesis
    using floor_log_eq_powr_iff [of x 2 "int k"] x by simp
qed


lemma ulp_below_one:
  assumes "e \<le> 23"
  shows "(2::real) powr (of_int e - 23) = 1 / 2 ^ nat (23 - e)"
proof -
  define n where "n = nat (23 - e)"
  have "real_of_int e - 23 = - real n" using assms by (simp add: n_def)
  moreover have "(2::real) powr (- real n) = 1 / 2 ^ n"
    by (simp add: powr_minus powr_realpow divide_inverse)
  ultimately show ?thesis by (simp only: n_def)
qed

lemma f32_round_nat_exact:
  assumes "1 \<le> m" "m \<le> 2 ^ 24"
  shows "f32_round (real m) = real m"
proof -
  define e where "e = \<lfloor>log 2 \<bar>real m\<bar>\<rfloor>"
  have m: "0 < real m" "1 \<le> real m" "real m \<le> 2 ^ 24" using assms by simp_all
  have e0: "0 \<le> e"
    unfolding e_def using m by simp
  have "log 2 (real m) \<le> 24"
    using m by (simp add: log_le_iff)
  then have e24: "e \<le> 24"
    unfolding e_def using m by (simp add: floor_le_iff)
  have "\<exists>z. real m / 2 powr (of_int e - 23) = of_int z"
  proof (cases "e \<le> 23")
    case True
    then have "real m / 2 powr (of_int e - 23) = of_int (int m * 2 ^ nat (23 - e))"
      by (simp add: ulp_below_one)
    then show ?thesis by blast
  next
    case False
    with e24 have e: "e = 24" by simp
    then have "24 \<le> log 2 (real m)"
      unfolding e_def using of_int_floor_le [of "log 2 (real m)"] by simp
    then have "2 powr 24 \<le> real m"
      using m by (simp add: le_log_iff)
    then have "real m = 2 ^ 24" using m by simp
    then have "real m / 2 powr (of_int e - 23) = of_int (2 ^ 23)"
      by (simp add: e)
    then show ?thesis by blast
  qed
  then obtain z where "real m / 2 powr (of_int \<lfloor>log 2 \<bar>real m\<bar>\<rfloor> - 23) = of_int z"
    unfolding e_def by blast
  then show ?thesis
    using m by (intro f32_round_exact) simp_all
qed


text \<open>
  The square root of a count below \<open>2 ^ 24\<close> that is not a square lies between two
  consecutive integers \<open>k\<close> and \<open>k + 1\<close>, at least \<open>1 / (2 * k + 1)\<close> above \<open>k\<close>. The
  spacing of \<^verbatim>\<open>f32\<close> there is at most \<open>2 ^ - 12\<close> of that gap, so the rounded root is
  still above \<open>k\<close>, and at most \<open>k + 1\<close>: its ceiling is the exact one.
\<close>

lemma f32_round_scaled:
  assumes "0 < x" "\<lfloor>log 2 x\<rfloor> \<le> 23"
  shows "f32_round x =
         of_int (round_ties_even (x * 2 ^ nat (23 - \<lfloor>log 2 x\<rfloor>))) / 2 ^ nat (23 - \<lfloor>log 2 x\<rfloor>)"
  using assms by (simp add: f32_round_def Let_def ulp_below_one)

lemma half_ulp_small:
  fixes P q :: real
  assumes "4096 \<le> P" "q = 1 / P"
  shows "0 < q \<and> q \<le> 1 / 4096"
proof -
  have P0: "0 < P" using assms(1) by simp
  have "1 / P \<le> 1 / 4096"
    using assms(1) by (intro divide_left_mono) simp_all
  with P0 show ?thesis by (simp add: assms(2))
qed

lemma scaled_upper:
  fixes s :: real and k j :: nat
  assumes "s < real (Suc k)"
  shows "s * 2 ^ j \<le> of_int (int (Suc k) * 2 ^ j)"
proof -
  have "s * 2 ^ j \<le> real (Suc k) * 2 ^ j"
    using assms by (intro mult_right_mono) simp_all
  then show ?thesis by simp
qed

lemma unscaled_upper:
  fixes k j :: nat and z :: int
  assumes "z \<le> int (Suc k) * 2 ^ j"
  shows "real_of_int z / 2 ^ j \<le> real (Suc k)"
proof -
  have "real_of_int z \<le> real_of_int (int (Suc k) * 2 ^ j)"
    using assms by (simp only: of_int_le_iff)
  then have "real_of_int z \<le> real (Suc k) * 2 ^ j" by simp
  then show ?thesis by (simp add: pos_divide_le_eq)
qed

lemma unscaled_lower:
  fixes k j :: nat and z :: int
  assumes "int k * 2 ^ j + 1 \<le> z"
  shows "real k + 1 / 2 ^ j \<le> real_of_int z / 2 ^ j"
proof -
  have "real_of_int (int k * 2 ^ j + 1) \<le> real_of_int z"
    using assms by (simp only: of_int_le_iff)
  then have "real k * 2 ^ j + 1 \<le> real_of_int z" by simp
  then have "(real k * 2 ^ j + 1) / 2 ^ j \<le> real_of_int z / 2 ^ j"
    by (intro divide_right_mono) simp_all
  then show ?thesis by (simp add: add_divide_distrib)
qed

lemma scaled_lower:
  fixes k j :: nat and s :: real
  assumes "real k + (1 / 2 ^ j) / 2 < s"
  shows "of_int (int k * 2 ^ j) + 1 / 2 < s * 2 ^ j"
proof -
  have "(real k + (1 / 2 ^ j) / 2) * 2 ^ j < s * 2 ^ j"
    using assms by (intro mult_strict_right_mono) simp_all
  moreover have "(real k + (1 / 2 ^ j) / 2) * 2 ^ j = real k * 2 ^ j + 1 / 2"
    by (simp add: distrib_right)
  moreover have "real_of_int (int k * 2 ^ j) = real k * 2 ^ j"
    by simp
  ultimately show ?thesis by linarith
qed

lemma below_next_square:
  fixes k :: nat and q :: real
  assumes "k \<le> 4095" "0 < q" "q \<le> 1 / 4096"
  shows "(real k + q / 2)\<^sup>2 < (real k)\<^sup>2 + 1"
proof -
  have "real k * q \<le> 4095 * q"
    using assms(1,2) by (intro mult_right_mono) simp_all
  moreover have "q * q \<le> q * 1"
    using assms(2,3) by (intro mult_left_mono) simp_all
  then have "q * q \<le> q" by simp
  ultimately have small: "real k * q + q * q / 4 < 1"
    using assms(2,3) by linarith
  have "(real k + q / 2)\<^sup>2 = (real k)\<^sup>2 + (real k * q + q * q / 4)"
    by (simp add: power2_sum power_divide) (simp add: power2_eq_square)
  with small show ?thesis by simp
qed

lemma f32_sqrt_between:
  fixes k n :: nat
  assumes k: "1 \<le> k" "k \<le> 4095" and n: "k * k < n" "n < Suc k * Suc k"
  shows "real k < f32_round (sqrt (real n)) \<and> f32_round (sqrt (real n)) \<le> real (Suc k)"
proof -
  define s where "s = sqrt (real n)"
  define j where "j = nat (23 - \<lfloor>log 2 s\<rfloor>)"
  define q :: real where "q = 1 / 2 ^ j"
  have "(real k)\<^sup>2 < real n"
    using n(1) by (metis of_nat_less_iff of_nat_mult power2_eq_square)
  then have lo: "real k < s"
    unfolding s_def by (simp add: real_less_rsqrt)
  have "real n < (real (Suc k))\<^sup>2"
    using n(2) by (metis of_nat_less_iff of_nat_mult power2_eq_square)
  then have hi: "s < real (Suc k)"
    unfolding s_def by (intro real_less_lsqrt) simp_all
  have s1: "1 \<le> s" "0 < s" using lo k(1) by simp_all
  have s4096: "s < 4096" using hi k(2) by simp
  have "log 2 s < 12"
    using s1 s4096 by (simp add: log_less_iff)
  then have "\<lfloor>log 2 s\<rfloor> < 12"
    by (simp add: floor_less_iff)
  then have e11: "\<lfloor>log 2 s\<rfloor> \<le> 23" and j12: "12 \<le> j"
    unfolding j_def by linarith+
  have "(2::real) ^ 12 \<le> 2 ^ j"
    using j12 by (intro power_increasing) simp_all
  then have "(4096::real) \<le> 2 ^ j" by simp
  from half_ulp_small [OF this q_def] have q: "0 < q" "q \<le> 1 / 4096" by simp_all
  have round: "f32_round s = of_int (round_ties_even (s * 2 ^ j)) / 2 ^ j"
    unfolding j_def using s1(2) e11 by (rule f32_round_scaled)
  have "round_ties_even (s * 2 ^ j) \<le> int (Suc k) * 2 ^ j"
    by (rule round_ties_even_le [OF scaled_upper [OF hi]])
  then have upper: "f32_round s \<le> real (Suc k)"
    unfolding round by (rule unscaled_upper)
  have "(real k + q / 2)\<^sup>2 < (real k)\<^sup>2 + 1"
    using k(2) q by (rule below_next_square)
  also have "\<dots> \<le> real n"
  proof -
    have "k * k + 1 \<le> n" using n(1) by simp
    then have "real (k * k + 1) \<le> real n" by (simp only: of_nat_le_iff)
    then show ?thesis by (simp add: power2_eq_square)
  qed
  finally have "real k + q / 2 < s"
    unfolding s_def by (simp add: real_less_rsqrt)
  then have "of_int (int k * 2 ^ j) + 1 / 2 < s * 2 ^ j"
    unfolding q_def by (rule scaled_lower)
  then have "int k * 2 ^ j + 1 \<le> round_ties_even (s * 2 ^ j)"
    by (rule round_ties_even_gt)
  then have "real k + q \<le> f32_round s"
    unfolding round q_def by (rule unscaled_lower)
  with q(1) upper show ?thesis
    unfolding s_def by simp
qed


text \<open>
  Up to \<open>2 ^ 24\<close> tiles the grid side that the code computes through \<^verbatim>\<open>f32\<close> is the
  exact \<open>\<lceil>sqrt n\<rceil>\<close>.
\<close>

lemma sqrt_ceil_bound:
  assumes "n \<le> m * m"
  shows "sqrt_ceil n \<le> m"
proof (rule ccontr)
  assume "\<not> sqrt_ceil n \<le> m"
  then have "m * m < n" using sqrt_ceil_least [of m n] by simp
  with assms show False by simp
qed

lemma f32_round_0 [simp]: "f32_round 0 = 0"
  by (simp add: f32_round_def)

lemma grid_side_exact:
  assumes "n \<le> 2 ^ 24"
  shows "grid_side n = sqrt_ceil n"
proof (cases "n = 0")
  case True
  then show ?thesis by (simp add: grid_side_def)
next
  case False
  define g where "g = sqrt_ceil n"
  have n1: "1 \<le> n" using False by simp
  have g1: "1 \<le> g" using sqrt_ceil_pos [of n] False by (simp add: g_def)
  have "n \<le> 4096 * 4096" using assms by simp
  then have g4096: "g \<le> 4096" unfolding g_def by (rule sqrt_ceil_bound)
  have up: "n \<le> g * g" unfolding g_def by (rule sqrt_ceil_upper)
  have n: "f32_round (real n) = real n"
    using n1 assms by (rule f32_round_nat_exact)
  have "\<lceil>f32_round (sqrt (real n))\<rceil> = int g"
  proof (cases "n = g * g")
    case True
    then have "sqrt (real n) = real g" by (simp add: real_sqrt_mult)
    moreover have "f32_round (real g) = real g"
      using g1 g4096 by (intro f32_round_nat_exact) simp_all
    ultimately show ?thesis by simp
  next
    case False
    with up have lt: "n < g * g" by simp
    obtain k where k: "g = Suc k" using g1 by (cases g) simp_all
    have "k * k < n" using sqrt_ceil_least [of k n] by (simp add: g_def [symmetric] k)
    moreover have "k \<noteq> 0"
    proof
      assume "k = 0"
      with lt k have "n < 1" by simp
      with n1 show False by simp
    qed
    ultimately have "real k < f32_round (sqrt (real n)) \<and> f32_round (sqrt (real n)) \<le> real (Suc k)"
      using g4096 lt k by (intro f32_sqrt_between) simp_all
    then have "\<lceil>f32_round (sqrt (real n))\<rceil> = int k + 1"
      by (intro ceiling_unique) simp_all
    then show ?thesis by (simp add: k)
  qed
  then show ?thesis
    using g4096 by (simp add: grid_side_def n g_def)
qed

text \<open>
  The count \<open>2 ^ 24 + 1\<close> is the first that \<^verbatim>\<open>f32\<close> does not hold: it lies half way
  between \<open>2 ^ 24\<close> and \<open>2 ^ 24 + 2\<close> and rounds to \<open>2 ^ 24\<close>, whose significand is even.
  The grid side computed for it is 4096, and \<open>\<lceil>sqrt n\<rceil>\<close> is 4097.
\<close>

lemma f32_round_16777217: "f32_round 16777217 = 16777216"
proof -
  have "\<lfloor>log 2 (16777217::real)\<rfloor> = int 24"
    by (rule floor_log2) simp_all
  then show ?thesis
    by (simp add: f32_round_def round_ties_even_def)
qed

lemma grid_side_16777217: "grid_side 16777217 = 4096"
proof -
  have "sqrt 16777216 = 4096"
    by (rule real_sqrt_unique) simp_all
  moreover have "f32_round (real 4096) = real 4096"
    by (rule f32_round_nat_exact) simp_all
  ultimately show ?thesis
    by (simp add: grid_side_def f32_round_16777217)
qed

lemma grid_side_less: "grid_side n < 2 ^ 32"
  by (simp add: grid_side_def)


lemma grid_side_0 [simp]: "grid_side 0 = 0"
  by (simp add: grid_side_def)

lemma grid_side_unat: "unat (of_nat (grid_side n) :: u32) = grid_side n"
  using grid_side_less [of n] by (simp add: unat_of_nat)

lemma sqrt_ceil_16777217: "sqrt_ceil 16777217 = 4097"
proof (rule sqrt_ceil_eqI)
  show "(16777217::nat) \<le> 4097 * 4097" by simp
next
  fix k :: nat
  assume "k < 4097"
  then have "k * k \<le> 4096 * 4096" by (intro mult_le_mono) simp_all
  then show "k * k < 16777217" by simp
qed

lemma grid_side_1: "grid_side 1 = 1"
proof -
  have "grid_side 1 = sqrt_ceil 1" by (rule grid_side_exact) simp
  then show ?thesis by (simp only: sqrt_ceil_1)
qed

lemma grid_side_3: "grid_side 3 = 2"
proof -
  have "grid_side 3 = sqrt_ceil 3" by (rule grid_side_exact) simp
  then show ?thesis by (simp only: sqrt_ceil_3)
qed

lemma length_1: "length [a] = 1"
  by simp

lemma length_3: "length [a, b, c] = 3"
  by simp

section \<open>Arithmetic in u32\<close>

lemma u32_range: "unat (w :: u32) < 2 ^ 32"
proof -
  have "unat w < 2 ^ LENGTH(32)" by (rule unsigned_less)
  then show ?thesis by simp
qed

lemma unat_of_nat_u32: "n < 2 ^ 32 \<Longrightarrow> unat (of_nat n :: u32) = n"
  by (simp add: unat_of_nat)

lemma u32_mul_ok:
  "(overflow_checks \<Longrightarrow> unat a * unat b < 2 ^ 32) \<Longrightarrow> u32_mul overflow_checks a b = Inr (a * b)"
  by (auto simp: u32_mul_def)

lemma u32_add_ok:
  "(overflow_checks \<Longrightarrow> unat a + unat b < 2 ^ 32) \<Longrightarrow> u32_add overflow_checks a b = Inr (a + b)"
  by (auto simp: u32_add_def)

lemma u32_sub_ok:
  "(overflow_checks \<Longrightarrow> unat b \<le> unat a) \<Longrightarrow> u32_sub overflow_checks a b = Inr (a - b)"
  by (auto simp: u32_sub_def)

lemma unat_mul_u32: "unat a * unat b < 2 ^ 32 \<Longrightarrow> unat (a * b :: u32) = unat a * unat b"
  by (simp add: unat_mult_lem [THEN iffD1])

lemma unat_add_u32: "unat a + unat b < 2 ^ 32 \<Longrightarrow> unat (a + b :: u32) = unat a + unat b"
  by (simp add: unat_add_lem [THEN iffD1])

lemma unat_sub_u32: "unat b \<le> unat a \<Longrightarrow> unat (a - b :: u32) = unat a - unat b"
  by (simp add: unat_sub word_le_nat_alt)

section \<open>A pack that returns\<close>

text \<open>
  The copy of a tile never panics on an index, the guard sees to that; with overflow
  checks it needs the sums \<^verbatim>\<open>x + px\<close> and \<^verbatim>\<open>y + py\<close> to stay in \<^verbatim>\<open>u32\<close>.
\<close>

lemma copy_pixel_ok:
  assumes "img_width atlas = unat atlas_size" "img_height atlas = unat atlas_size"
    and "px < 2 ^ 32" "py < 2 ^ 32"
    and "overflow_checks \<Longrightarrow> unat x + px < 2 ^ 32 \<and> unat y + py < 2 ^ 32"
  shows "\<exists>atlas'. copy_pixel overflow_checks atlas_size x y src py px atlas = Inr atlas' \<and>
           img_width atlas' = unat atlas_size \<and> img_height atlas' = unat atlas_size"
proof -
  have px: "unat (of_nat px :: u32) = px" and py: "unat (of_nat py :: u32) = py"
    using assms(3,4) by (simp_all add: unat_of_nat_u32)
  have ax: "u32_add overflow_checks x (of_nat px) = Inr (x + of_nat px)"
    using assms(5) by (intro u32_add_ok) (simp add: px)
  have ay: "u32_add overflow_checks y (of_nat py) = Inr (y + of_nat py)"
    using assms(5) by (intro u32_add_ok) (simp add: py)
  show ?thesis
    using assms(1,2)
    by (simp add: copy_pixel_def ax ay put_pixel_def word_less_nat_alt)
qed

lemma copy_tile_ok:
  assumes "img_width atlas = unat atlas_size" "img_height atlas = unat atlas_size"
    and "overflow_checks \<Longrightarrow>
           unat x + unat content_size \<le> 2 ^ 32 \<and> unat y + unat content_size \<le> 2 ^ 32"
  shows "\<exists>atlas'. copy_tile overflow_checks atlas_size x y content_size src atlas = Inr atlas' \<and>
           img_width atlas' = unat atlas_size \<and> img_height atlas' = unat atlas_size"
  unfolding copy_tile_def
proof (rule for_each_invariant
    [where P = "\<lambda>a. img_width a = unat atlas_size \<and> img_height a = unat atlas_size"])
  show "img_width atlas = unat atlas_size \<and> img_height atlas = unat atlas_size"
    using assms by simp
next
  fix py and t :: "rgba image"
  assume py: "py \<in> set [0..<unat content_size]"
    and t: "img_width t = unat atlas_size \<and> img_height t = unat atlas_size"
  show "\<exists>t'. for_each (copy_pixel overflow_checks atlas_size x y src py) [0..<unat content_size] t =
              Inr t' \<and>
         img_width t' = unat atlas_size \<and> img_height t' = unat atlas_size"
  proof (rule for_each_invariant
      [where P = "\<lambda>a. img_width a = unat atlas_size \<and> img_height a = unat atlas_size"])
    show "img_width t = unat atlas_size \<and> img_height t = unat atlas_size" by (rule t)
  next
    fix px and u :: "rgba image"
    assume px: "px \<in> set [0..<unat content_size]"
      and u: "img_width u = unat atlas_size \<and> img_height u = unat atlas_size"
    have c: "unat content_size < 2 ^ 32" by (rule u32_range)
    show "\<exists>t'. copy_pixel overflow_checks atlas_size x y src py px u = Inr t' \<and>
        img_width t' = unat atlas_size \<and> img_height t' = unat atlas_size"
    proof (rule copy_pixel_ok)
      show "px < 2 ^ 32" "py < 2 ^ 32" using px py c by simp_all
      show "unat x + px < 2 ^ 32 \<and> unat y + py < 2 ^ 32" if overflow_checks
        using assms(3) [OF that] px py by simp
    qed (simp_all add: u)
  qed
qed

text \<open>The arithmetic of one cell when its far corner stays in \<^verbatim>\<open>u32\<close>.\<close>

lemma cell_arith:
  fixes k C P :: u32
  assumes pad: "2 * unat P \<le> unat C" and far: "(unat k + 1) * unat C < 2 ^ 32"
  shows "unat k * unat C < 2 ^ 32"
    and "unat (k * C) + unat P < 2 ^ 32"
    and "unat (k * C + P) = unat k * unat C + unat P"
    and "unat P * 2 < 2 ^ 32"
    and "unat (P * 2) \<le> unat C"
    and "unat (C - P * 2) = unat C - 2 * unat P"
    and "unat (k * C + P) + unat (C - P * 2) \<le> 2 ^ 32"
proof -
  have C: "unat C < 2 ^ 32" by (rule u32_range)
  show kc: "unat k * unat C < 2 ^ 32" using far by simp
  then have m: "unat (k * C) = unat k * unat C" by (rule unat_mul_u32)
  show s: "unat (k * C) + unat P < 2 ^ 32" using far pad by (simp add: m)
  then show a: "unat (k * C + P) = unat k * unat C + unat P"
    by (simp add: unat_add_u32 m)
  show p2: "unat P * 2 < 2 ^ 32" using pad C by simp
  then have d: "unat (P * 2) = 2 * unat P"
    using unat_mul_u32 [of P 2] by simp
  then show le: "unat (P * 2) \<le> unat C" using pad by simp
  then show sb: "unat (C - P * 2) = unat C - 2 * unat P"
    by (simp add: unat_sub_u32 d)
  show "unat (k * C + P) + unat (C - P * 2) \<le> 2 ^ 32"
    using far pad by (simp add: a sb)
qed

lemma place_tile_ok:
  assumes dims: "img_width atlas = unat A" "img_height atlas = unat A"
    and G: "G \<noteq> 0"
    and room: "overflow_checks \<Longrightarrow> 2 * unat P \<le> unat C \<and>
                 (unat (of_nat i mod G) + 1) * unat C < 2 ^ 32 \<and>
                 (unat (of_nat i div G) + 1) * unat C < 2 ^ 32"
  shows "\<exists>atlas'. place_tile overflow_checks rs A P G C (C - P * 2) (i, tid, tile) (atlas, ps) =
            Inr (atlas', AList.update tid (grid_cell_rect G C P i) ps) \<and>
          img_width atlas' = unat A \<and> img_height atlas' = unat A"
proof -
  let ?gx = "of_nat i mod G :: u32" and ?gy = "of_nat i div G :: u32"
  have pad: "2 * unat P \<le> unat C" if overflow_checks
    using room [OF that] by (rule conjunct1)
  have far_x: "(unat ?gx + 1) * unat C < 2 ^ 32" if overflow_checks
    using room [OF that] by (elim conjE)
  have far_y: "(unat ?gy + 1) * unat C < 2 ^ 32" if overflow_checks
    using room [OF that] by (elim conjE)
  have mx: "u32_mul overflow_checks ?gx C = Inr (?gx * C)"
    by (rule u32_mul_ok) (rule cell_arith(1) [OF pad far_x])
  have my: "u32_mul overflow_checks ?gy C = Inr (?gy * C)"
    by (rule u32_mul_ok) (rule cell_arith(1) [OF pad far_y])
  have ax: "u32_add overflow_checks (?gx * C) P = Inr (?gx * C + P)"
    by (rule u32_add_ok) (rule cell_arith(2) [OF pad far_x])
  have ay: "u32_add overflow_checks (?gy * C) P = Inr (?gy * C + P)"
    by (rule u32_add_ok) (rule cell_arith(2) [OF pad far_y])
  have "overflow_checks \<Longrightarrow>
      unat (?gx * C + P) + unat (C - P * 2) \<le> 2 ^ 32 \<and>
      unat (?gy * C + P) + unat (C - P * 2) \<le> 2 ^ 32"
    by (rule conjI) (rule cell_arith(7) [OF pad far_x], assumption+,
        rule cell_arith(7) [OF pad far_y])
  from copy_tile_ok [OF dims this] obtain atlas' where
    "copy_tile overflow_checks A (?gx * C + P) (?gy * C + P) (C - P * 2)
       (rs tile (C - P * 2) (C - P * 2)) atlas = Inr atlas'"
    "img_width atlas' = unat A" "img_height atlas' = unat A"
    by blast
  then show ?thesis
    using G by (simp add: place_tile_def u32_rem_def u32_div_def mx my ax ay grid_cell_rect_def)
qed

lemma place_tiles_ok:
  assumes G: "G \<noteq> 0"
  shows "img_width atlas = unat A \<Longrightarrow> img_height atlas = unat A \<Longrightarrow>
         (\<And>i. overflow_checks \<Longrightarrow> k \<le> i \<Longrightarrow> i < k + length imgs \<Longrightarrow>
            2 * unat P \<le> unat C \<and>
            (unat (of_nat i mod G) + 1) * unat C < 2 ^ 32 \<and>
            (unat (of_nat i div G) + 1) * unat C < 2 ^ 32) \<Longrightarrow>
         \<exists>atlas'. for_each (place_tile overflow_checks rs A P G C (C - P * 2))
                     (List.enumerate k imgs) (atlas, ps) =
            Inr (atlas', fold (\<lambda>(i, tile_id, tile). AList.update tile_id (grid_cell_rect G C P i))
                           (List.enumerate k imgs) ps) \<and>
           img_width atlas' = unat A \<and> img_height atlas' = unat A"
proof (induction imgs arbitrary: k atlas ps)
  case Nil
  then show ?case by simp
next
  case (Cons entry imgs)
  obtain tid tile where entry: "entry = (tid, tile)" by (cases entry)
  have "overflow_checks \<Longrightarrow> 2 * unat P \<le> unat C \<and>
          (unat (of_nat k mod G) + 1) * unat C < 2 ^ 32 \<and>
          (unat (of_nat k div G) + 1) * unat C < 2 ^ 32"
    using Cons.prems(3) [of k] by simp
  from place_tile_ok [OF Cons.prems(1,2) G this, where rs = rs and tid = tid and tile = tile
      and ps = ps] obtain atlas1 where a1:
    "place_tile overflow_checks rs A P G C (C - P * 2) (k, tid, tile) (atlas, ps) =
       Inr (atlas1, AList.update tid (grid_cell_rect G C P k) ps)"
    "img_width atlas1 = unat A" "img_height atlas1 = unat A"
    by auto
  have "\<exists>atlas'. for_each (place_tile overflow_checks rs A P G C (C - P * 2))
            (List.enumerate (Suc k) imgs)
            (atlas1, AList.update tid (grid_cell_rect G C P k) ps) =
            Inr (atlas', fold (\<lambda>(i, tile_id, tile). AList.update tile_id (grid_cell_rect G C P i))
                           (List.enumerate (Suc k) imgs)
                           (AList.update tid (grid_cell_rect G C P k) ps)) \<and>
           img_width atlas' = unat A \<and> img_height atlas' = unat A"
  proof (rule Cons.IH [OF a1(2,3)])
    fix i
    assume "overflow_checks" "Suc k \<le> i" "i < Suc k + length imgs"
    then show "2 * unat P \<le> unat C \<and>
          (unat (of_nat i mod G) + 1) * unat C < 2 ^ 32 \<and>
          (unat (of_nat i div G) + 1) * unat C < 2 ^ 32"
      using Cons.prems(3) [of i] by simp
  qed
  then show ?case
    by (simp add: entry a1(1))
qed

lemma cell_fits:
  fixes a c g k :: nat
  assumes "k < g" "c * g \<le> a"
  shows "k * c + c \<le> a"
proof -
  have "Suc k * c \<le> g * c"
    using assms(1) by (intro mult_le_mono1) simp
  with assms(2) show ?thesis by (simp add: mult.commute)
qed

text \<open>
  The packer returns the grid's placements: always when nothing is checked (and there
  is a tile), and with overflow checks when the content size does not underflow and the
  last row's far edge stays in \<^verbatim>\<open>u32\<close>.
\<close>

lemma pack_atlas_grid:
  assumes g: "grid_side (length images) \<noteq> 0"
    and room: "overflow_checks \<Longrightarrow>
       2 * unat padding \<le> unat atlas_size div grid_side (length images) \<and>
       length images \<le> 2 ^ 32 \<and>
       ((length images - 1) div grid_side (length images) + 1) *
         (unat atlas_size div grid_side (length images)) < 2 ^ 32"
  shows "\<exists>atlas. pack_atlas overflow_checks rs images atlas_size padding =
           Inr (atlas, grid_placements images atlas_size padding)"
proof -
  define G :: u32 where "G = of_nat (grid_side (length images))"
  define C where "C = atlas_size div G"
  have ug: "unat G = grid_side (length images)"
    unfolding G_def by (rule grid_side_unat)
  then have G: "G \<noteq> 0" using g by (metis unat_0)
  have uc: "unat C = unat atlas_size div grid_side (length images)"
    by (simp add: C_def unat_div ug)
  have A: "unat atlas_size < 2 ^ 32" by (rule u32_range)
  have cell: "unat C * unat G \<le> unat atlas_size"
    by (simp add: uc ug)
  have tiles: "2 * unat padding \<le> unat C \<and>
            (unat (of_nat i mod G) + 1) * unat C < 2 ^ 32 \<and>
            (unat (of_nat i div G) + 1) * unat C < 2 ^ 32"
    if "overflow_checks" "i < 0 + length images" for i
  proof -
    from room [OF that(1)] have pad: "2 * unat padding \<le> unat C"
      and n: "length images \<le> 2 ^ 32"
      and far: "((length images - 1) div unat G + 1) * unat C < 2 ^ 32"
      by (simp_all add: uc ug)
    have "i < 2 ^ 32" using that(2) n by simp
    then have ui: "unat (of_nat i :: u32) = i" by (rule unat_of_nat_u32)
    have gx: "unat (of_nat i mod G) = i mod unat G" by (simp add: unat_mod ui)
    have gy: "unat (of_nat i div G) = i div unat G" by (simp add: unat_div ui)
    have "i mod unat G < unat G" using G by (simp add: unat_gt_0)
    from cell_fits [OF this cell] A have x: "(i mod unat G + 1) * unat C < 2 ^ 32"
      by simp
    have "i div unat G \<le> (length images - 1) div unat G"
      using that(2) by (intro div_le_mono) simp
    then have "(i div unat G + 1) * unat C \<le> ((length images - 1) div unat G + 1) * unat C"
      by (intro mult_le_mono1) simp
    then have y: "(i div unat G + 1) * unat C < 2 ^ 32"
      using far by (rule le_less_trans)
    from pad x y show ?thesis by (simp add: gx gy)
  qed
  obtain atlas where
    "for_each (place_tile overflow_checks rs atlas_size padding G C (C - padding * 2))
       (List.enumerate 0 images)
       (new_image (unat atlas_size) (unat atlas_size) (0, 0, 0, 0), []) =
     Inr (atlas, fold (\<lambda>(i, tile_id, tile). AList.update tile_id (grid_cell_rect G C padding i))
                    (List.enumerate 0 images) [])"
    using place_tiles_ok [OF G, where atlas = "new_image (unat atlas_size) (unat atlas_size) (0, 0, 0, 0)"
        and A = atlas_size and overflow_checks = overflow_checks and k = 0 and imgs = images
        and P = padding and C = C and rs = rs and ps = "[]"] tiles
    by (auto simp: new_image_def)
  moreover have "u32_div atlas_size G = Inr C"
    using G by (simp add: u32_div_def C_def)
  moreover have "u32_mul overflow_checks padding 2 = Inr (padding * 2)"
  proof (rule u32_mul_ok)
    assume overflow_checks
    from room [OF this] have "2 * unat padding \<le> unat atlas_size" 
      by (meson div_le_dividend order.trans)
    with A show "unat padding * unat (2 :: u32) < 2 ^ 32" by simp
  qed
  moreover have "u32_sub overflow_checks C (padding * 2) = Inr (C - padding * 2)"
  proof (rule u32_sub_ok)
    assume overflow_checks
    from room [OF this] have pad: "2 * unat padding \<le> unat C" by (simp add: uc)
    have "unat C < 2 ^ 32" by (rule u32_range)
    with pad have "unat padding * unat (2 :: u32) < 2 ^ 32" by simp
    from unat_mul_u32 [OF this] pad show "unat (padding * 2) \<le> unat C" by simp
  qed
  ultimately show ?thesis
    by (auto simp: pack_atlas_def grid_placements_def Let_def G_def [symmetric] C_def [symmetric])
qed

text \<open>A pack returns only with a tile to place and, when checked, a content size that
  does not underflow.\<close>

lemma pack_atlas_returns:
  assumes "pack_atlas overflow_checks rs images atlas_size padding = Inr r"
  shows "grid_side (length images) \<noteq> 0 \<and>
         (overflow_checks \<longrightarrow>
            2 * unat padding \<le> unat atlas_size div grid_side (length images))"
proof -
  define G :: u32 where "G = of_nat (grid_side (length images))"
  have ug: "unat G = grid_side (length images)"
    unfolding G_def by (rule grid_side_unat)
  from assms have G: "G \<noteq> 0"
    by (auto simp: pack_atlas_def Let_def G_def [symmetric] u32_div_def split: if_splits)
  then have g: "grid_side (length images) \<noteq> 0"
    using ug by (metis unat_eq_0)
  have "2 * unat padding \<le> unat atlas_size div grid_side (length images)" if overflow_checks
  proof -
    from assms G that have m: "unat padding * 2 < 2 ^ 32"
      by (auto simp: pack_atlas_def Let_def G_def [symmetric] u32_div_def u32_mul_def
          split: if_splits)
    then have "unat (padding * 2) = 2 * unat padding"
      using unat_mul_u32 [of padding 2] by simp
    moreover from assms G m that have "unat (padding * 2) \<le> unat (atlas_size div G)"
      by (auto simp: pack_atlas_def Let_def G_def [symmetric] u32_div_def u32_mul_def u32_sub_def
          split: if_splits)
    ultimately show ?thesis
      by (simp add: unat_div ug)
  qed
  with g show ?thesis by simp
qed

text \<open>
  When the cell is smaller than twice the padding, \<^verbatim>\<open>cell_size - padding * 2\<close> (or
  \<^verbatim>\<open>padding * 2\<close> before it) overflows: a panic when overflow checks are on.
\<close>

lemma pack_atlas_content_underflow:
  assumes "grid_side (length images) \<noteq> 0"
    and "unat atlas_size div grid_side (length images) < 2 * unat padding"
  shows "pack_atlas True rs images atlas_size padding = Inl ArithmeticOverflow"
proof (cases "pack_atlas True rs images atlas_size padding")
  case (Inr r)
  from pack_atlas_returns [OF this] assms(2) show ?thesis by simp
next
  case (Inl e)
  define G :: u32 where "G = of_nat (grid_side (length images))"
  have "unat G = grid_side (length images)"
    unfolding G_def by (rule grid_side_unat)
  then have G: "G \<noteq> 0" using assms(1) by (metis unat_0)
  have c: "unat (atlas_size div G) = unat atlas_size div grid_side (length images)"
    by (simp add: unat_div \<open>unat G = grid_side (length images)\<close>)
  have "and_then (u32_mul True padding 2) (u32_sub True (atlas_size div G)) =
        Inl ArithmeticOverflow"
  proof (cases "unat padding * 2 < 2 ^ 32")
    case True
    then have "unat (padding * 2) = 2 * unat padding"
      using unat_mul_u32 [of padding 2] by simp
    with True assms(2) c show ?thesis
      by (simp add: u32_mul_def u32_sub_def)
  next
    case False
    then show ?thesis by (simp add: u32_mul_def)
  qed
  then show ?thesis
    using G by (simp add: pack_atlas_def Let_def G_def [symmetric] u32_div_def)
qed

text \<open>Up to \<open>2 ^ 24\<close> tiles the grid side is exact and the grid has room for every tile.\<close>

lemma pack_atlas_ok:
  assumes "images \<noteq> []" "length images \<le> 2 ^ 24"
    and "2 * unat padding \<le> unat atlas_size div sqrt_ceil (length images)"
  shows "\<exists>atlas. pack_atlas overflow_checks rs images atlas_size padding =
           Inr (atlas, grid_placements images atlas_size padding)"
proof (rule pack_atlas_grid)
  let ?n = "length images"
  have g: "grid_side ?n = sqrt_ceil ?n"
    using assms(2) by (rule grid_side_exact)
  have gpos: "0 < sqrt_ceil ?n"
    using assms(1) by (simp add: sqrt_ceil_pos)
  then show "grid_side ?n \<noteq> 0" by (simp add: g)
  have "?n - 1 < sqrt_ceil ?n * sqrt_ceil ?n"
    using sqrt_ceil_upper [of ?n] assms(1) by (cases images) simp_all
  then have "(?n - 1) div sqrt_ceil ?n < sqrt_ceil ?n"
    by (simp add: less_mult_imp_div_less)
  from cell_fits [OF this, of "unat atlas_size div sqrt_ceil ?n" "unat atlas_size"]
  have "((?n - 1) div sqrt_ceil ?n + 1) * (unat atlas_size div sqrt_ceil ?n) \<le> unat atlas_size"
    by simp
  moreover have "unat atlas_size < 2 ^ 32" by (rule u32_range)
  moreover have "?n \<le> 2 ^ 32"
    using assms(2) by (simp add: order.trans [of _ "2 ^ 24"])
  ultimately show "2 * unat padding \<le> unat atlas_size div grid_side ?n \<and> ?n \<le> 2 ^ 32 \<and>
       ((?n - 1) div grid_side ?n + 1) * (unat atlas_size div grid_side ?n) < 2 ^ 32"
    using assms(3) by (simp add: g)
qed

section \<open>The placement map\<close>

lemma set_update_subset: "set (AList.update k v al) \<subseteq> insert (k, v) (set al)"
  by (induction al) auto

lemma placed_entries:
  "(tid, pos) \<in> set (fold (\<lambda>(i, tile_id, tile). AList.update tile_id (r i))
                         (List.enumerate k imgs) ps) \<Longrightarrow>
   (tid, pos) \<in> set ps \<or> (\<exists>j < length imgs. tid = fst (imgs ! j) \<and> pos = r (k + j))"
proof (induction imgs arbitrary: k ps)
  case Nil
  then show ?case by simp
next
  case (Cons a imgs)
  obtain t tile where a: "a = (t, tile)" by (cases a)
  from Cons.prems have "(tid, pos) \<in> set (fold (\<lambda>(i, tile_id, tile). AList.update tile_id (r i))
      (List.enumerate (Suc k) imgs) (AList.update t (r k) ps))"
    by (simp add: a)
  from Cons.IH [OF this] consider
    (old) "(tid, pos) \<in> set (AList.update t (r k) ps)"
    | (later) j where "j < length imgs" "tid = fst (imgs ! j)" "pos = r (Suc k + j)"
    by blast
  then show ?case
  proof cases
    case old
    then have "(tid, pos) = (t, r k) \<or> (tid, pos) \<in> set ps"
      using set_update_subset [of t "r k" ps] by auto
    then show ?thesis
    proof
      assume "(tid, pos) = (t, r k)"
      then have "0 < length (a # imgs) \<and> tid = fst ((a # imgs) ! 0) \<and> pos = r (k + 0)"
        by (simp add: a)
      then show ?thesis by blast
    next
      assume "(tid, pos) \<in> set ps"
      then show ?thesis by simp
    qed
  next
    case later
    then have "Suc j < length (a # imgs) \<and> tid = fst ((a # imgs) ! Suc j) \<and> pos = r (k + Suc j)"
      by simp
    then show ?thesis by blast
  qed
qed

lemma placed_keys:
  "fst ` set (fold (\<lambda>(i, tile_id, tile). AList.update tile_id (r i)) (List.enumerate k imgs) ps) =
   fst ` set ps \<union> fst ` set imgs"
proof (induction imgs arbitrary: k ps)
  case Nil
  then show ?case by simp
next
  case (Cons a imgs)
  obtain t tile where a: "a = (t, tile)" by (cases a)
  show ?case
    by (auto simp: a Cons.IH dom_update)
qed

lemma placed_distinct:
  "distinct (map fst ps) \<Longrightarrow>
   distinct (map fst (fold (\<lambda>(i, tile_id, tile). AList.update tile_id (r i))
                         (List.enumerate k imgs) ps))"
proof (induction imgs arbitrary: k ps)
  case Nil
  then show ?case by simp
next
  case (Cons a imgs)
  obtain t tile where a: "a = (t, tile)" by (cases a)
  show ?case
    by (simp add: a Cons.IH Cons.prems distinct_update)
qed

lemma placed_untouched:
  "tid \<notin> fst ` set imgs \<Longrightarrow>
   map_of (fold (\<lambda>(i, tile_id, tile). AList.update tile_id (r i)) (List.enumerate k imgs) ps) tid =
   map_of ps tid"
proof (induction imgs arbitrary: k ps)
  case Nil
  then show ?case by simp
next
  case (Cons a imgs)
  obtain t tile where a: "a = (t, tile)" by (cases a)
  from Cons.prems have "tid \<noteq> t" "tid \<notin> fst ` set imgs" by (auto simp: a)
  then show ?case
    by (simp add: a Cons.IH update_conv')
qed

lemma placed_lookup:
  "j < length imgs \<Longrightarrow>
   (\<forall>j'. j < j' \<and> j' < length imgs \<longrightarrow> fst (imgs ! j') \<noteq> fst (imgs ! j)) \<Longrightarrow>
   map_of (fold (\<lambda>(i, tile_id, tile). AList.update tile_id (r i)) (List.enumerate k imgs) ps)
     (fst (imgs ! j)) = Some (r (k + j))"
proof (induction imgs arbitrary: k ps j)
  case Nil
  then show ?case by simp
next
  case (Cons a imgs)
  obtain t tile where a: "a = (t, tile)" by (cases a)
  show ?case
  proof (cases j)
    case 0
    have "t \<notin> fst ` set imgs"
    proof
      assume "t \<in> fst ` set imgs"
      then obtain j' where "j' < length imgs" "fst (imgs ! j') = t"
        by (auto simp: in_set_conv_nth)
      then have "0 < Suc j' \<and> Suc j' < length (a # imgs) \<and>
                 fst ((a # imgs) ! Suc j') = fst ((a # imgs) ! 0)"
        by (simp add: a)
      with Cons.prems(2) 0 show False by blast
    qed
    then show ?thesis
      by (simp add: 0 a placed_untouched update_conv')
  next
    case (Suc i)
    have later: "\<forall>j'. i < j' \<and> j' < length imgs \<longrightarrow> fst (imgs ! j') \<noteq> fst (imgs ! i)"
    proof (intro allI impI)
      fix j' assume "i < j' \<and> j' < length imgs"
      then have "j < Suc j' \<and> Suc j' < length (a # imgs)" by (simp add: Suc)
      with Cons.prems(2) have "fst ((a # imgs) ! Suc j') \<noteq> fst ((a # imgs) ! j)" by blast
      then show "fst (imgs ! j') \<noteq> fst (imgs ! i)" by (simp add: Suc)
    qed
    have "i < length imgs" using Cons.prems(1) Suc by simp
    from Cons.IH [OF this later, of "Suc k" "AList.update t (r k) ps"] show ?thesis
      by (simp add: Suc a)
  qed
qed

text \<open>The rectangle of tile \<open>i\<close>, in numbers, when the grid has a cell for it.\<close>

lemma grid_cell_rect_unat:
  fixes A G C P :: u32
  assumes G: "G \<noteq> 0" and cell: "unat C * unat G \<le> unat A"
    and pad: "2 * unat P \<le> unat C"
    and i: "i < unat G * unat G" "i < 2 ^ 32"
  shows "unat (pos_x (grid_cell_rect G C P i)) = (i mod unat G) * unat C + unat P"
    and "unat (pos_y (grid_cell_rect G C P i)) = (i div unat G) * unat C + unat P"
    and "unat (pos_width (grid_cell_rect G C P i)) = unat C - 2 * unat P"
    and "unat (pos_height (grid_cell_rect G C P i)) = unat C - 2 * unat P"
proof -
  have A: "unat A < 2 ^ 32" by (rule u32_range)
  have g0: "0 < unat G" using G by (simp add: unat_gt_0)
  have ui: "unat (of_nat i :: u32) = i" using i(2) by (rule unat_of_nat_u32)
  have gx: "unat (of_nat i mod G) = i mod unat G" by (simp add: unat_mod ui)
  have gy: "unat (of_nat i div G) = i div unat G" by (simp add: unat_div ui)
  have "i mod unat G < unat G" using g0 by simp
  from cell_fits [OF this cell] A have fx: "(unat (of_nat i mod G :: u32) + 1) * unat C < 2 ^ 32"
    by (simp add: gx)
  have "i div unat G < unat G" using i(1) by (simp add: less_mult_imp_div_less)
  from cell_fits [OF this cell] A have fy: "(unat (of_nat i div G :: u32) + 1) * unat C < 2 ^ 32"
    by (simp add: gy)
  show "unat (pos_x (grid_cell_rect G C P i)) = (i mod unat G) * unat C + unat P"
    using cell_arith(3) [OF pad fx] by (simp add: grid_cell_rect_def gx)
  show "unat (pos_y (grid_cell_rect G C P i)) = (i div unat G) * unat C + unat P"
    using cell_arith(3) [OF pad fy] by (simp add: grid_cell_rect_def gy)
  show "unat (pos_width (grid_cell_rect G C P i)) = unat C - 2 * unat P"
    and "unat (pos_height (grid_cell_rect G C P i)) = unat C - 2 * unat P"
    using cell_arith(6) [OF pad fx] by (simp_all add: grid_cell_rect_def)
qed

lemma grid_facts:
  assumes "images \<noteq> []" "length images \<le> 2 ^ 24"
    and "2 * unat padding \<le> unat atlas_size div sqrt_ceil (length images)"
    and "i < length images"
  defines "g \<equiv> sqrt_ceil (length images)"
  defines "c \<equiv> unat atlas_size div sqrt_ceil (length images)"
  defines "rect \<equiv> grid_cell_rect (of_nat (grid_side (length images)))
                     (atlas_size div of_nat (grid_side (length images))) padding i"
  shows "unat (pos_x rect) = (i mod g) * c + unat padding"
    and "unat (pos_y rect) = (i div g) * c + unat padding"
    and "unat (pos_width rect) = c - 2 * unat padding"
    and "unat (pos_height rect) = c - 2 * unat padding"
    and "i mod g < g" and "i div g < g" and "c * g \<le> unat atlas_size"
proof -
  define G :: u32 where "G = of_nat (grid_side (length images))"
  define C where "C = atlas_size div G"
  have "unat G = grid_side (length images)"
    unfolding G_def by (rule grid_side_unat)
  then have ug: "unat G = g"
    by (simp add: g_def grid_side_exact [OF assms(2)])
  have gpos: "0 < g"
    using assms(1) by (simp add: sqrt_ceil_pos g_def)
  then have G: "G \<noteq> 0" using ug by (metis unat_0 less_irrefl)
  have uc: "unat C = c"
    by (simp add: C_def unat_div ug c_def g_def [symmetric])
  have cell: "unat C * unat G \<le> unat atlas_size"
    by (simp add: uc ug c_def g_def [symmetric])
  have pad: "2 * unat padding \<le> unat C" using assms(3) uc c_def by simp
  have i1: "i < unat G * unat G"
    using sqrt_ceil_upper [of "length images"] ug assms(4) by (simp add: g_def)
  have i2: "i < (2::nat) ^ 32"
    using assms(2,4) by (simp add: order.strict_trans2 [of _ "2 ^ 24"])
  note r = grid_cell_rect_unat [OF G cell pad i1 i2]
  show "unat (pos_x rect) = (i mod g) * c + unat padding"
    and "unat (pos_y rect) = (i div g) * c + unat padding"
    and "unat (pos_width rect) = c - 2 * unat padding"
    and "unat (pos_height rect) = c - 2 * unat padding"
    using r by (simp_all add: rect_def G_def [symmetric] C_def [symmetric] ug uc)
  show "i mod g < g" using gpos by simp
  show "i div g < g" using i1 ug by (simp add: less_mult_imp_div_less)
  show "c * g \<le> unat atlas_size" using cell by (simp add: uc ug)
qed

lemma grid_placements_entries:
  assumes "(tid, pos) \<in> set (grid_placements images atlas_size padding)"
  shows "\<exists>i < length images. tid = fst (images ! i) \<and>
           pos = grid_cell_rect (of_nat (grid_side (length images)))
                   (atlas_size div of_nat (grid_side (length images))) padding i"
  using placed_entries [of tid pos _ 0 images "[]"] assms
  by (simp add: grid_placements_def Let_def)

lemma grid_placements_keys:
  "fst ` set (grid_placements images atlas_size padding) = fst ` set images"
  by (simp add: grid_placements_def Let_def placed_keys)

lemma grid_placements_lookup:
  assumes "i < length images"
    and "\<forall>j. i < j \<and> j < length images \<longrightarrow> fst (images ! j) \<noteq> fst (images ! i)"
  shows "map_of (grid_placements images atlas_size padding) (fst (images ! i)) =
         Some (grid_cell_rect (of_nat (grid_side (length images)))
                 (atlas_size div of_nat (grid_side (length images))) padding i)"
  using placed_lookup [OF assms, of _ 0 "[]"]
  by (simp add: grid_placements_def Let_def)

section \<open>The packer's claims\<close>

text \<open>
  C1. The claim is that the packer, given no tiles, returns an empty map and a
  background-only atlas. The code does not: with no tiles the grid side is 0, and
  \<^verbatim>\<open>atlas_size / grid_size\<close> panics with a division by zero, for every atlas size and
  padding and in either build profile.
\<close>

theorem pack_atlas_empty_divides_by_zero:
  "pack_atlas overflow_checks rs [] atlas_size padding = Inl DivideByZero"
  by (simp add: pack_atlas_def u32_div_def)

text \<open>
  C2, as claimed, fails: three tiles in an atlas of 192 pixels with a padding of 48 have
  a cell of 96 pixels, which is not more than twice the padding, and the packer returns
  three placements of size zero, in either build profile.
\<close>

theorem pack_atlas_zero_content_counterexample:
  "unat (192 :: u32) div sqrt_ceil (length [(''A'', ()), (''B'', ()), (''C'', ())]) \<le> 2 * unat (48 :: u32) \<and>
   (\<forall>overflow_checks.
      pack_atlas overflow_checks (\<lambda>_ _ _ _. (0, 0, 0, 0)) [(''A'', ()), (''B'', ()), (''C'', ())] 192 48 =
        Inr (new_image 192 192 (0, 0, 0, 0),
             [(''A'', \<lparr>pos_x = 48, pos_y = 48, pos_width = 0, pos_height = 0\<rparr>),
              (''B'', \<lparr>pos_x = 144, pos_y = 48, pos_width = 0, pos_height = 0\<rparr>),
              (''C'', \<lparr>pos_x = 48, pos_y = 144, pos_width = 0, pos_height = 0\<rparr>)]))"
  unfolding pack_atlas_def length_3 sqrt_ceil_3 grid_side_3 Let_def
  by (simp add: place_tile_def copy_tile_def
      u32_div_def u32_rem_def u32_mul_def u32_add_def u32_sub_def)

text \<open>
  C2, amended. For a non-empty list of at most \<open>2 ^ 24\<close> tiles whose cell size is exactly
  twice the padding, the packer returns: one placement for every tile id, each of width
  and height 0.
\<close>

theorem pack_atlas_zero_content:
  assumes "images \<noteq> []" "length images \<le> 2 ^ 24"
    and "unat atlas_size div sqrt_ceil (length images) = 2 * unat padding"
  shows "\<exists>atlas positions.
           pack_atlas overflow_checks rs images atlas_size padding = Inr (atlas, positions) \<and>
           fst ` set positions = fst ` set images \<and>
           (\<forall>(tid, pos) \<in> set positions. pos_width pos = 0 \<and> pos_height pos = 0)"
proof -
  have pad: "2 * unat padding \<le> unat atlas_size div sqrt_ceil (length images)"
    using assms(3) by simp
  obtain atlas where ok: "pack_atlas overflow_checks rs images atlas_size padding =
      Inr (atlas, grid_placements images atlas_size padding)"
    using pack_atlas_ok [OF assms(1,2) pad] by blast
  note keys = grid_placements_keys [of images atlas_size padding]
  have zero: "pos_width pos = 0 \<and> pos_height pos = 0"
    if "(tid, pos) \<in> set (grid_placements images atlas_size padding)" for tid pos
  proof -
    from grid_placements_entries [OF that] obtain i where i: "i < length images"
      and pos: "pos = grid_cell_rect (of_nat (grid_side (length images)))
                   (atlas_size div of_nat (grid_side (length images))) padding i"
      by blast
    from grid_facts(3,4) [OF assms(1,2) pad i] assms(3)
    have "unat (pos_width pos) = 0" "unat (pos_height pos) = 0"
      by (simp_all add: pos)
    then show ?thesis by (simp add: unat_eq_0)
  qed
  from ok keys zero show ?thesis by blast
qed

text \<open>The three tiles of the counterexample, with overflow checks.\<close>

theorem pack_atlas_zero_content_witness:
  "\<exists>atlas positions.
     pack_atlas True (\<lambda>_ _ _ _. (0, 0, 0, 0)) [(''A'', ()), (''B'', ()), (''C'', ())] 192 48 =
       Inr (atlas, positions) \<and>
     fst ` set positions = {''A'', ''B'', ''C''} \<and>
     (\<forall>(tid, pos) \<in> set positions. pos_width pos = 0 \<and> pos_height pos = 0)"
proof -
  have "[(''A'', ()), (''B'', ()), (''C'', ())] \<noteq> []"
    "length [(''A'', ()), (''B'', ()), (''C'', ())] \<le> 2 ^ 24"
    "unat (192 :: u32) div sqrt_ceil (length [(''A'', ()), (''B'', ()), (''C'', ())]) = 2 * unat (48 :: u32)"
    unfolding length_3 sqrt_ceil_3 by simp_all
  from pack_atlas_zero_content [OF this, of True "\<lambda>_ _ _ _. (0, 0, 0, 0)"] show ?thesis
    by (simp add: insert_commute)
qed

text \<open>
  The placement rule on its exact range. For a non-empty list of at most \<open>2 ^ 24\<close> tiles
  whose content size does not underflow, the packer returns in either build profile, and
  tile \<open>i\<close> (the last tile with its id) is placed at the grid cell \<open>(i mod g, i div g)\<close>:
  its origin is \<open>(gridX * c + padding, gridY * c + padding)\<close> and its width and height are
  \<open>c - 2 * padding\<close>, for \<open>g = sqrt_ceil n\<close> and \<open>c = atlas_size div g\<close>.
\<close>

lemma pack_atlas_grid_placement:
  assumes "images \<noteq> []" "length images \<le> 2 ^ 24"
    and "2 * unat padding \<le> unat atlas_size div sqrt_ceil (length images)"
    and "i < length images"
    and "\<forall>j. i < j \<and> j < length images \<longrightarrow> fst (images ! j) \<noteq> fst (images ! i)"
  shows "\<exists>atlas positions pos.
           pack_atlas overflow_checks rs images atlas_size padding = Inr (atlas, positions) \<and>
           map_of positions (fst (images ! i)) = Some pos \<and>
           (let g = sqrt_ceil (length images); c = unat atlas_size div g in
            unat (pos_x pos) = (i mod g) * c + unat padding \<and>
            unat (pos_y pos) = (i div g) * c + unat padding \<and>
            unat (pos_width pos) = c - 2 * unat padding \<and>
            unat (pos_height pos) = c - 2 * unat padding)"
proof -
  obtain atlas where ok: "pack_atlas overflow_checks rs images atlas_size padding =
      Inr (atlas, grid_placements images atlas_size padding)"
    using pack_atlas_ok [OF assms(1,2,3)] by blast
  note grid_placements_lookup [OF assms(4,5), of atlas_size padding]
    and grid_facts(1-4) [OF assms(1,2,3,4)]
  then show ?thesis
    using ok by (simp add: Let_def)
qed

text \<open>
  The scenario of the specification: three tiles A, B and C, an atlas of 192 pixels, no
  padding.
\<close>

lemma pack_atlas_scenario:
  "sqrt_ceil 3 = 2 \<and> unat (192 :: u32) div 2 = 96 \<and>
   (\<exists>atlas. pack_atlas overflow_checks rs [(''A'', ta), (''B'', tb), (''C'', tc)] 192 0 =
      Inr (atlas,
           [(''A'', \<lparr>pos_x = 0, pos_y = 0, pos_width = 96, pos_height = 96\<rparr>),
            (''B'', \<lparr>pos_x = 96, pos_y = 0, pos_width = 96, pos_height = 96\<rparr>),
            (''C'', \<lparr>pos_x = 0, pos_y = 96, pos_width = 96, pos_height = 96\<rparr>)]))"
proof -
  let ?images = "[(''A'', ta), (''B'', tb), (''C'', tc)]"
  have "?images \<noteq> []" "length ?images \<le> 2 ^ 24"
    "2 * unat (0 :: u32) \<le> unat (192 :: u32) div sqrt_ceil (length ?images)"
    unfolding length_3 sqrt_ceil_3 by simp_all
  from pack_atlas_ok [OF this, of overflow_checks rs] obtain atlas where
    "pack_atlas overflow_checks rs ?images 192 0 = Inr (atlas, grid_placements ?images 192 0)"
    by blast
  moreover have "grid_placements ?images 192 0 =
           [(''A'', \<lparr>pos_x = 0, pos_y = 0, pos_width = 96, pos_height = 96\<rparr>),
            (''B'', \<lparr>pos_x = 96, pos_y = 0, pos_width = 96, pos_height = 96\<rparr>),
            (''C'', \<lparr>pos_x = 0, pos_y = 96, pos_width = 96, pos_height = 96\<rparr>)]"
    unfolding grid_placements_def length_3 grid_side_3 Let_def
    by (simp add: grid_cell_rect_def)
  ultimately show ?thesis
    by (simp add: sqrt_ceil_3)
qed

section \<open>Past the exact range of f32\<close>

text \<open>
  A pack of \<open>2 ^ 24 + 1\<close> tiles that all carry the same id, in an atlas of 8192 pixels
  without padding. The grid side is 4096 and the cell size 2; the map keeps the
  placement of the last tile, of index \<open>2 ^ 24\<close>, which is the first tile of row 4096.
\<close>

lemma last_of_many:
  assumes "0 < n"
  shows "map_of (grid_placements (replicate n (tid, tile)) atlas_size padding) tid =
         Some (grid_cell_rect (of_nat (grid_side n)) (atlas_size div of_nat (grid_side n))
                 padding (n - 1))"
proof -
  let ?images = "replicate n (tid, tile)"
  have "n - 1 < length ?images" using assms by simp
  moreover have "\<forall>j. n - 1 < j \<and> j < length ?images \<longrightarrow> fst (?images ! j) \<noteq> fst (?images ! (n - 1))"
    by auto
  ultimately have "map_of (grid_placements ?images atlas_size padding) (fst (?images ! (n - 1))) =
         Some (grid_cell_rect (of_nat (grid_side (length ?images)))
                 (atlas_size div of_nat (grid_side (length ?images))) padding (n - 1))"
    by (rule grid_placements_lookup)
  then show ?thesis using assms by simp
qed

lemma pack_atlas_many:
  assumes "grid_side n = 4096" "n = 16777217"
  shows "\<exists>atlas positions.
           pack_atlas overflow_checks rs (replicate n (''t'', tile)) 8192 0 =
             Inr (atlas, positions) \<and>
           map_of positions ''t'' =
             Some \<lparr>pos_x = 0, pos_y = 8192, pos_width = 2, pos_height = 2\<rparr>"
proof -
  have "\<exists>atlas. pack_atlas overflow_checks rs (replicate n (''t'', tile)) 8192 0 =
           Inr (atlas, grid_placements (replicate n (''t'', tile)) 8192 0)"
  proof (rule pack_atlas_grid)
    show "grid_side (length (replicate n (''t'', tile))) \<noteq> 0"
      by (simp add: assms(1))
    show "2 * unat (0 :: u32) \<le> unat (8192 :: u32) div grid_side (length (replicate n (''t'', tile))) \<and>
       length (replicate n (''t'', tile)) \<le> 2 ^ 32 \<and>
       ((length (replicate n (''t'', tile)) - 1) div grid_side (length (replicate n (''t'', tile))) + 1) *
         (unat (8192 :: u32) div grid_side (length (replicate n (''t'', tile)))) < 2 ^ 32"
      by (simp add: assms(1)) (simp add: assms(2))
  qed
  moreover have "map_of (grid_placements (replicate n (''t'', tile)) 8192 0) ''t'' =
      Some \<lparr>pos_x = 0, pos_y = 8192, pos_width = 2, pos_height = 2\<rparr>"
    using last_of_many [of n "''t''" tile 8192 0]
    by (simp add: assms(1) grid_cell_rect_def) (simp add: assms(2))
  ultimately show ?thesis by blast
qed

text \<open>
  C4. The claim is that tile \<open>i\<close> of \<open>n\<close> goes to the grid cell \<open>(i mod g, i div g)\<close> with
  \<open>g = \<lceil>sqrt n\<rceil>\<close>. The code computes the grid side in \<^verbatim>\<open>f32\<close>, and for
  \<open>2 ^ 24 + 1\<close> tiles it gets 4096 where \<open>\<lceil>sqrt n\<rceil>\<close> is 4097. With an atlas of 8192
  pixels and no padding the last tile, of index \<open>2 ^ 24\<close>, is placed at the origin
  \<open>(0, 8192)\<close> with a size of 2 pixels, in either build profile; the claim's rule puts
  it at \<open>(1, 4095)\<close> with a size of 1 pixel.
\<close>

theorem pack_atlas_grid_side_rounded:
  "sqrt_ceil 16777217 = 4097 \<and> grid_side 16777217 = 4096 \<and>
   (\<exists>atlas positions.
      pack_atlas overflow_checks rs (replicate 16777217 (''t'', tile)) 8192 0 =
        Inr (atlas, positions) \<and>
      map_of positions ''t'' =
        Some \<lparr>pos_x = 0, pos_y = 8192, pos_width = 2, pos_height = 2\<rparr>) \<and>
   (let g = sqrt_ceil 16777217; c = unat (8192 :: u32) div g in
      (16777216 mod g) * c + unat (0 :: u32) = 1 \<and>
      (16777216 div g) * c + unat (0 :: u32) = 4095 \<and>
      c - 2 * unat (0 :: u32) = 1)"
  using pack_atlas_many [OF grid_side_16777217 refl, of overflow_checks rs tile]
  by (simp add: sqrt_ceil_16777217 grid_side_16777217)

text \<open>Loops whose bodies keep a relation between two runs keep it themselves.\<close>

lemma for_each_related:
  assumes "list_all2 Q xs ys" "R s t"
    and "\<And>a b s t. Q a b \<Longrightarrow> R s t \<Longrightarrow> rel_sum (=) R (f a s) (g b t)"
  shows "rel_sum (=) R (for_each f xs s) (for_each g ys t)"
  using assms(1,2)
proof (induction xs ys arbitrary: s t rule: list_all2_induct)
  case Nil
  then show ?case by simp
next
  case (Cons a xs b ys)
  have step: "rel_sum (=) R (f a s) (g b t)"
    by (rule assms(3) [OF Cons.hyps(1) Cons.prems])
  show ?case
  proof (cases "f a s")
    case (Inl e)
    with step show ?thesis by (cases "g b t") simp_all
  next
    case (Inr s')
    with step obtain t' where t': "g b t = Inr t'" "R s' t'"
      by (cases "g b t") simp_all
    with Inr Cons.IH [OF t'(2)] show ?thesis by simp
  qed
qed

lemma copy_pixel_related:
  assumes "same_size a b"
  shows "rel_sum (=) same_size (copy_pixel overflow_checks A x y src py px a)
           (copy_pixel overflow_checks A x y src' py px b)"
  using assms
  by (auto simp: copy_pixel_def u32_add_def put_pixel_def same_size_def)

lemma copy_tile_related:
  assumes "same_size a b"
  shows "rel_sum (=) same_size (copy_tile overflow_checks A x y s src a)
           (copy_tile overflow_checks A x y s src' b)"
  unfolding copy_tile_def
proof (rule for_each_related [where Q = "(=)"])
  show "list_all2 (=) [0..<unat s] [0..<unat s]" by (simp add: list.rel_eq)
  show "same_size a b" by (rule assms)
next
  fix py py' :: nat and u v :: "rgba image"
  assume "py = py'" "same_size u v"
  then show "rel_sum (=) same_size
      (for_each (copy_pixel overflow_checks A x y src py) [0..<unat s] u)
      (for_each (copy_pixel overflow_checks A x y src' py') [0..<unat s] v)"
    by (intro for_each_related [where Q = "(=)"]) (simp_all add: list.rel_eq copy_pixel_related)
qed

lemma place_tile_related:
  assumes "same_placements s t"
  shows "rel_sum (=) same_placements
           (place_tile overflow_checks rs A P G C S (i, tid, tile) s)
           (place_tile overflow_checks rs' A P G C S (i, tid, tile') t)"
proof -
  obtain a ps b where st: "s = (a, ps)" "t = (b, ps)" "same_size a b"
    using assms by (cases s, cases t) (auto simp: same_placements_def)
  have "rel_sum (=) same_placements
      (and_then (copy_tile overflow_checks A x y S (rs tile S S) a)
         (\<lambda>atlas'. Inr (atlas', AList.update tid r ps)))
      (and_then (copy_tile overflow_checks A x y S (rs' tile' S S) b)
         (\<lambda>atlas'. Inr (atlas', AList.update tid r ps)))"
    for x y r
    using copy_tile_related [OF st(3), of overflow_checks A x y S "rs tile S S" "rs' tile' S S"]
    by (cases "copy_tile overflow_checks A x y S (rs tile S S) a";
        cases "copy_tile overflow_checks A x y S (rs' tile' S S) b")
      (simp_all add: same_placements_def)
  then show ?thesis
    by (simp add: place_tile_def st and_then_def split: sum.splits)
qed

lemma enumerate_related:
  "map fst xs = map fst ys \<Longrightarrow>
   list_all2 (\<lambda>a b. fst a = fst b \<and> fst (snd a) = fst (snd b)) (List.enumerate k xs) (List.enumerate k ys)"
proof (induction xs arbitrary: k ys)
  case Nil
  then show ?case by simp
next
  case (Cons x xs)
  then obtain y ys' where ys: "ys = y # ys'" "fst x = fst y" "map fst xs = map fst ys'"
    by (cases ys) auto
  with Cons.IH [of ys' "Suc k"] show ?case by simp
qed

text \<open>
  C7. Two tile lists with the same ids in the same order, whatever their images and
  whatever the resampling makes of them, get the same outcome for the same atlas size,
  padding and build profile: the same placement map, or the same panic.
\<close>

theorem pack_atlas_placements_from_ids:
  assumes "map fst images1 = map fst images2"
  shows "map_sum id snd (pack_atlas overflow_checks rs1 images1 atlas_size padding) =
         map_sum id snd (pack_atlas overflow_checks rs2 images2 atlas_size padding)"
proof -
  have len: "length images1 = length images2"
    using assms by (metis length_map)
  have loop: "rel_sum (=) same_placements
      (for_each (place_tile overflow_checks rs1 atlas_size padding G C S)
         (List.enumerate 0 images1) (a, []))
      (for_each (place_tile overflow_checks rs2 atlas_size padding G C S)
         (List.enumerate 0 images2) (a, []))"
    for G C S a
  proof (rule for_each_related [OF enumerate_related [OF assms]])
    show "same_placements (a, []) (a, [])"
      by (simp add: same_placements_def same_size_def)
  next
    fix e1 :: "nat \<times> string \<times> 'a" and e2 :: "nat \<times> string \<times> 'b" and s t
    assume e: "fst e1 = fst e2 \<and> fst (snd e1) = fst (snd e2)" and st: "same_placements s t"
    obtain i tid t1 t2 where "e1 = (i, tid, t1)" "e2 = (i, tid, t2)"
      using e by (cases e1, cases e2) auto
    then show "rel_sum (=) same_placements
        (place_tile overflow_checks rs1 atlas_size padding G C S e1 s)
        (place_tile overflow_checks rs2 atlas_size padding G C S e2 t)"
      using place_tile_related [OF st] by simp
  qed
  have proj: "map_sum id snd r1 = map_sum id snd r2" if "rel_sum (=) same_placements r1 r2" for r1 r2
    using that by (cases r1; cases r2) (simp_all add: same_placements_def)
  show ?thesis
    unfolding pack_atlas_def Let_def len
    by (auto simp: and_then_def intro: proj loop split: sum.splits)
qed

text \<open>Two tiles, with different images and different resampled pixels.\<close>

theorem pack_atlas_placements_from_ids_witness:
  "map_sum id snd (pack_atlas True (\<lambda>_ _ _ _. (0, 0, 0, 0)) [(''A'', False), (''B'', False)] 4 0) =
   map_sum id snd (pack_atlas True (\<lambda>_ _ _ _. (255, 255, 255, 255)) [(''A'', True), (''B'', True)] 4 0)"
  by (rule pack_atlas_placements_from_ids) simp

section \<open>Placements inside the atlas\<close>

lemma cells_apart:
  fixes a b c p :: nat
  assumes "a < b" "2 * p \<le> c"
  shows "a * c + p + (c - 2 * p) \<le> b * c + p"
proof -
  have "Suc a * c \<le> b * c"
    using assms(1) by (intro mult_le_mono1) simp
  then show ?thesis using assms(2) by simp
qed

lemma inside_cell:
  fixes k c p a :: nat
  assumes "k + c \<le> a" "2 * p \<le> c"
  shows "k + p + (c - 2 * p) \<le> a"
  using assms by simp

lemma grid_cells_disjoint:
  assumes "images \<noteq> []" "length images \<le> 2 ^ 24"
    and "2 * unat padding \<le> unat atlas_size div sqrt_ceil (length images)"
    and "i < length images" "j < length images" "i \<noteq> j"
  shows "\<not> rects_overlap
           (grid_cell_rect (of_nat (grid_side (length images)))
              (atlas_size div of_nat (grid_side (length images))) padding i)
           (grid_cell_rect (of_nat (grid_side (length images)))
              (atlas_size div of_nat (grid_side (length images))) padding j)"
proof -
  let ?g = "sqrt_ceil (length images)"
  let ?c = "unat atlas_size div sqrt_ceil (length images)"
  note ri = grid_facts(1-4) [OF assms(1,2,3,4)]
  note rj = grid_facts(1-4) [OF assms(1,2,3,5)]
  have "i mod ?g \<noteq> j mod ?g \<or> i div ?g \<noteq> j div ?g"
    using assms(6) by (metis div_mult_mod_eq)
  then consider "i mod ?g < j mod ?g" | "j mod ?g < i mod ?g"
    | "i div ?g < j div ?g" | "j div ?g < i div ?g"
    by linarith
  then show ?thesis
  proof cases
    case 1
    from cells_apart [OF 1 assms(3)] show ?thesis
      by (simp add: rects_overlap_def ri rj)
  next
    case 2
    from cells_apart [OF 2 assms(3)] show ?thesis
      by (simp add: rects_overlap_def ri rj)
  next
    case 3
    from cells_apart [OF 3 assms(3)] show ?thesis
      by (simp add: rects_overlap_def ri rj)
  next
    case 4
    from cells_apart [OF 4 assms(3)] show ?thesis
      by (simp add: rects_overlap_def ri rj)
  qed
qed

lemma grid_cell_in_bounds:
  assumes "images \<noteq> []" "length images \<le> 2 ^ 24"
    and "2 * unat padding \<le> unat atlas_size div sqrt_ceil (length images)"
    and "i < length images"
  shows "unat (pos_x (grid_cell_rect (of_nat (grid_side (length images)))
              (atlas_size div of_nat (grid_side (length images))) padding i)) +
         unat (pos_width (grid_cell_rect (of_nat (grid_side (length images)))
              (atlas_size div of_nat (grid_side (length images))) padding i)) \<le> unat atlas_size \<and>
         unat (pos_y (grid_cell_rect (of_nat (grid_side (length images)))
              (atlas_size div of_nat (grid_side (length images))) padding i)) +
         unat (pos_height (grid_cell_rect (of_nat (grid_side (length images)))
              (atlas_size div of_nat (grid_side (length images))) padding i)) \<le> unat atlas_size"
proof -
  let ?g = "sqrt_ceil (length images)"
  let ?c = "unat atlas_size div sqrt_ceil (length images)"
  note r = grid_facts [OF assms(1,2,3,4)]
  have "(i mod ?g) * ?c + ?c \<le> unat atlas_size"
    by (rule cell_fits [OF r(5,7)])
  moreover have "(i div ?g) * ?c + ?c \<le> unat atlas_size"
    by (rule cell_fits [OF r(6,7)])
  ultimately show ?thesis
    unfolding r(1-4) using assms(3) by (intro conjI inside_cell)
qed

text \<open>
  Up to \<open>2 ^ 24\<close> tiles, and when the content size does not wrap around, every placement
  of a pack that returns lies inside the atlas, and the placements of two different tile
  ids do not overlap. The atlas size need not be a multiple of the grid side.
\<close>

lemma pack_atlas_placements_in_bounds_disjoint:
  assumes "pack_atlas overflow_checks rs images atlas_size padding = Inr (atlas, positions)"
    and "length images \<le> 2 ^ 24"
    and "overflow_checks \<or> 2 * unat padding \<le> unat atlas_size div sqrt_ceil (length images)"
  shows "(\<forall>(tid, pos) \<in> set positions.
            unat (pos_x pos) + unat (pos_width pos) \<le> unat atlas_size \<and>
            unat (pos_y pos) + unat (pos_height pos) \<le> unat atlas_size) \<and>
         (\<forall>(tid1, pos1) \<in> set positions. \<forall>(tid2, pos2) \<in> set positions.
            tid1 \<noteq> tid2 \<longrightarrow> \<not> rects_overlap pos1 pos2)"
proof -
  note g = grid_side_exact [OF assms(2)]
  from pack_atlas_returns [OF assms(1)] have "grid_side (length images) \<noteq> 0"
    and "overflow_checks \<longrightarrow> 2 * unat padding \<le> unat atlas_size div sqrt_ceil (length images)"
    by (simp_all add: g)
  with assms(3) have ne: "images \<noteq> []"
    and pad: "2 * unat padding \<le> unat atlas_size div sqrt_ceil (length images)"
    by auto
  from pack_atlas_ok [OF ne assms(2) pad, of overflow_checks rs] assms(1)
  have positions: "positions = grid_placements images atlas_size padding"
    by auto
  have bounds: "unat (pos_x pos) + unat (pos_width pos) \<le> unat atlas_size \<and>
            unat (pos_y pos) + unat (pos_height pos) \<le> unat atlas_size"
    if "(tid, pos) \<in> set positions" for tid pos
  proof -
    from grid_placements_entries [OF that [unfolded positions]] obtain i where
      "i < length images"
      "pos = grid_cell_rect (of_nat (grid_side (length images)))
               (atlas_size div of_nat (grid_side (length images))) padding i"
      by blast
    then show ?thesis
      using grid_cell_in_bounds [OF ne assms(2) pad] by simp
  qed
  have apart: "\<not> rects_overlap pos1 pos2"
    if "(tid1, pos1) \<in> set positions" "(tid2, pos2) \<in> set positions" "tid1 \<noteq> tid2"
    for tid1 pos1 tid2 pos2
  proof -
    from grid_placements_entries [OF that(1) [unfolded positions]] obtain i where
      i: "i < length images" "tid1 = fst (images ! i)"
      "pos1 = grid_cell_rect (of_nat (grid_side (length images)))
               (atlas_size div of_nat (grid_side (length images))) padding i"
      by blast
    from grid_placements_entries [OF that(2) [unfolded positions]] obtain j where
      j: "j < length images" "tid2 = fst (images ! j)"
      "pos2 = grid_cell_rect (of_nat (grid_side (length images)))
               (atlas_size div of_nat (grid_side (length images))) padding j"
      by blast
    have "i \<noteq> j" using that(3) i(2) j(2) by auto
    then show ?thesis
      using grid_cells_disjoint [OF ne assms(2) pad i(1) j(1)] by (simp add: i(3) j(3))
  qed
  from bounds apart show ?thesis by blast
qed

text \<open>
  C8. The claim is that every placement of a pack that returns lies inside the atlas.
  Two runs return a placement outside it. Without overflow checks, one tile in an atlas
  of 64 pixels with a padding of \<open>2 ^ 31\<close>: \<^verbatim>\<open>padding * 2\<close> wraps to 0, the content size
  is 64, and the tile is placed at \<open>x = 2 ^ 31\<close> (with overflow checks the same call
  panics). In either build profile, \<open>2 ^ 24 + 1\<close> tiles in an atlas of 8192 pixels: the
  grid side is rounded to 4096, and the last tile is placed in a row of its own below
  the atlas, at \<open>y = 8192\<close>.
\<close>

theorem pack_atlas_placement_outside_atlas:
  "(\<exists>atlas pos.
      pack_atlas False rs [(''A'', tile)] 64 2147483648 = Inr (atlas, [(''A'', pos)]) \<and>
      unat (pos_x pos) = 2147483648 \<and> unat (pos_width pos) = 64 \<and>
      unat (64 :: u32) < unat (pos_x pos) + unat (pos_width pos)) \<and>
   pack_atlas True rs [(''A'', tile)] 64 2147483648 = Inl ArithmeticOverflow \<and>
   (\<exists>atlas positions pos.
      pack_atlas overflow_checks rs' (replicate 16777217 (''t'', tile')) 8192 0 =
        Inr (atlas, positions) \<and>
      map_of positions ''t'' = Some pos \<and>
      unat (pos_y pos) = 8192 \<and> unat (pos_height pos) = 2 \<and>
      unat (8192 :: u32) < unat (pos_y pos) + unat (pos_height pos))"
proof -
  have one: "grid_side (length [(''A'', tile)]) \<noteq> 0"
    unfolding length_1 grid_side_1 by simp
  then have "\<exists>atlas. pack_atlas False rs [(''A'', tile)] 64 2147483648 =
      Inr (atlas, grid_placements [(''A'', tile)] 64 2147483648)"
    by (rule pack_atlas_grid) simp
  moreover have "grid_placements [(''A'', tile)] 64 2147483648 =
      [(''A'', \<lparr>pos_x = 2147483648, pos_y = 2147483648, pos_width = 64, pos_height = 64\<rparr>)]"
    unfolding grid_placements_def length_1 grid_side_1 Let_def
    by (simp add: grid_cell_rect_def)
  ultimately have wrapped: "\<exists>atlas pos.
      pack_atlas False rs [(''A'', tile)] 64 2147483648 = Inr (atlas, [(''A'', pos)]) \<and>
      unat (pos_x pos) = 2147483648 \<and> unat (pos_width pos) = 64 \<and>
      unat (64 :: u32) < unat (pos_x pos) + unat (pos_width pos)"
    by auto
  have "unat (64 :: u32) div grid_side (length [(''A'', tile)]) < 2 * unat (2147483648 :: u32)"
    unfolding length_1 grid_side_1 by simp
  with one have checked: "pack_atlas True rs [(''A'', tile)] 64 2147483648 = Inl ArithmeticOverflow"
    by (rule pack_atlas_content_underflow)
  from pack_atlas_many [OF grid_side_16777217 refl, of overflow_checks rs' tile']
  have "\<exists>atlas positions pos.
      pack_atlas overflow_checks rs' (replicate 16777217 (''t'', tile')) 8192 0 =
        Inr (atlas, positions) \<and>
      map_of positions ''t'' = Some pos \<and>
      unat (pos_y pos) = 8192 \<and> unat (pos_height pos) = 2 \<and>
      unat (8192 :: u32) < unat (pos_y pos) + unat (pos_height pos)"
    by auto
  with wrapped checked show ?thesis by blast
qed

section \<open>The registry's claims\<close>












lemma tiles3: "collect_tiles shapes_only_config [] [(''circle'', i1), (''triangle'', i2), (''square'', i3)] =
   ([], [(''circle'', \<lparr>si_x = 0, si_y = 0, si_width = 64, si_height = 64\<rparr>),
         (''triangle'', \<lparr>si_x = 0, si_y = 0, si_width = 64, si_height = 64\<rparr>),
         (''square'', \<lparr>si_x = 0, si_y = 0, si_width = 64, si_height = 64\<rparr>)],
    [(''shape_circle'', i1), (''shape_triangle'', i2), (''shape_square'', i3)])"
  by (simp add: collect_tiles_def shapes_only_config_def add_shape_def)

lemma placements3:
  "grid_placements [(''shape_circle'', i1), (''shape_triangle'', i2), (''shape_square'', i3)] 1024 2 =
    [(''shape_circle'', \<lparr>pos_x = 2, pos_y = 2, pos_width = 508, pos_height = 508\<rparr>),
     (''shape_triangle'', \<lparr>pos_x = 514, pos_y = 2, pos_width = 508, pos_height = 508\<rparr>),
     (''shape_square'', \<lparr>pos_x = 2, pos_y = 514, pos_width = 508, pos_height = 508\<rparr>)]"
  unfolding grid_placements_def length_3 grid_side_3 Let_def
  by (simp add: grid_cell_rect_def)

lemma generate_shapes_only:
  "\<exists>atlas result.
     pack_atlas overflow_checks rs
       [(''shape_circle'', i1), (''shape_triangle'', i2), (''shape_square'', i3)] 1024 2 =
       Inr (atlas,
            [(''shape_circle'', \<lparr>pos_x = 2, pos_y = 2, pos_width = 508, pos_height = 508\<rparr>),
             (''shape_triangle'', \<lparr>pos_x = 514, pos_y = 2, pos_width = 508, pos_height = 508\<rparr>),
             (''shape_square'', \<lparr>pos_x = 2, pos_y = 514, pos_width = 508, pos_height = 508\<rparr>)]) \<and>
     generate overflow_checks rs shapes_only_config []
       [(''circle'', i1), (''triangle'', i2), (''square'', i3)] now = Inr result \<and>
     reg_characters (res_registry result) = [] \<and>
     reg_shapes (res_registry result) =
       [(''circle'', \<lparr>si_x = 2, si_y = 2, si_width = 64, si_height = 64\<rparr>),
        (''triangle'', \<lparr>si_x = 514, si_y = 2, si_width = 64, si_height = 64\<rparr>),
        (''square'', \<lparr>si_x = 2, si_y = 514, si_width = 64, si_height = 64\<rparr>)]"
proof -
  let ?tiles = "[(''shape_circle'', i1), (''shape_triangle'', i2), (''shape_square'', i3)]"
  have "?tiles \<noteq> []" "length ?tiles \<le> 2 ^ 24"
    "2 * unat (2 :: u32) \<le> unat (1024 :: u32) div sqrt_ceil (length ?tiles)"
    unfolding length_3 sqrt_ceil_3 by simp_all
  from pack_atlas_ok [OF this, of overflow_checks rs] obtain atlas where
    ok: "pack_atlas overflow_checks rs ?tiles 1024 2 = Inr (atlas, grid_placements ?tiles 1024 2)"
    by blast
  have "\<exists>result. generate overflow_checks rs shapes_only_config []
       [(''circle'', i1), (''triangle'', i2), (''square'', i3)] now = Inr result \<and>
     reg_characters (res_registry result) = [] \<and>
     reg_shapes (res_registry result) =
       [(''circle'', \<lparr>si_x = 2, si_y = 2, si_width = 64, si_height = 64\<rparr>),
        (''triangle'', \<lparr>si_x = 514, si_y = 2, si_width = 64, si_height = 64\<rparr>),
        (''square'', \<lparr>si_x = 2, si_y = 514, si_width = 64, si_height = 64\<rparr>)]"
    unfolding generate_def tiles3
    by (simp add: shapes_only_config_def ok placements3 update_position_def strip_prefix_def)
  with ok show ?thesis
    by (auto simp: placements3)
qed

text \<open>
  C6. The claim is that a registry entry holds the whole rectangle the packer returned
  for its tile. The code copies \<open>x\<close> and \<open>y\<close> only: with the default configuration and the
  three shapes, the packer places the circle in a rectangle of 508 by 508 pixels at
  \<open>(2, 2)\<close>, and the registry entry of the circle has that origin with the width and
  height 64 it was created with, in either build profile.
\<close>

theorem generate_registry_keeps_tile_size:
  "\<exists>atlas positions result.
     pack_atlas overflow_checks rs
       [(''shape_circle'', i1), (''shape_triangle'', i2), (''shape_square'', i3)] 1024 2 =
       Inr (atlas, positions) \<and>
     generate overflow_checks rs shapes_only_config []
       [(''circle'', i1), (''triangle'', i2), (''square'', i3)] now = Inr result \<and>
     map_of positions ''shape_circle'' =
       Some \<lparr>pos_x = 2, pos_y = 2, pos_width = 508, pos_height = 508\<rparr> \<and>
     map_of (reg_shapes (res_registry result)) ''circle'' =
       Some \<lparr>si_x = 2, si_y = 2, si_width = 64, si_height = 64\<rparr>"
  using generate_shapes_only [of overflow_checks rs i1 i2 i3 now] by auto




end
